theory Spec2Isabelle
  imports Complex_Main
begin

section \<open>The sparse time-space distance matrix of simple-time-space-clustering\<close>

text \<open>
  The notebook file holds two copies of the cell that defines
  \<^verbatim>\<open>write_sparse_distance_matrix\<close>. They are the same code but for the two comparison
  operators: the first cell (lines 58-110) tests \<^verbatim>\<open>current_ts - ts < time_threshold\<close> and
  \<^verbatim>\<open>d < space_threshold\<close>, the second cell (lines 262-313) tests the same two
  expressions with \<^verbatim>\<open><=\<close>. The loop body of the embedding takes the two operators as
  parameters (\<open>lt_time\<close>, \<open>lt_space\<close>); \<open>go\<close> instantiates them for the cell it is asked for.

  What the code takes from libraries is a parameter of the model:
  \<^item> \<open>strptime\<close> is \<^verbatim>\<open>datetime.strptime(_, "%m/%d/%Y %H:%M")\<close>: the timestamp in
    minutes, or \<open>None\<close> where the library raises \<^verbatim>\<open>ValueError\<close>;
  \<^item> \<open>metric\<close> is the distance of the \<^verbatim>\<open>DistanceMetric\<close> object between two coordinate
    rows, or the exception it raises.
\<close>

subsection \<open>Data\<close>

text \<open>The exceptions: those of Python that the code can meet, and the
  \<open>MetricDomainError\<close> of the specification, for a metric that checks its domain.\<close>

datatype error = ValueError | IndexError | KeyError string | TypeError | MetricDomainError

text \<open>A value of a \<^verbatim>\<open>csv.DictReader\<close> row: a string, or \<open>None\<close> for a field that a
  short line left out. A row is a dictionary from field names to such values.\<close>

type_synonym field = "string option"
type_synonym row = "string \<Rightarrow> field option"
type_synonym coords = "field list"

text \<open>An output row \<^verbatim>\<open>{"x": _, "y": _, "distance": _}\<close>.\<close>

type_synonym entry = "nat \<times> nat \<times> real"

text \<open>What the code does to the outside, in the order it does it: the lines it writes
  and the calls of \<^verbatim>\<open>dist.pairwise\<close> it makes.\<close>

datatype effect =
    Writeheader "string list"
  | Writerow entry
  | Pairwise "coords list" "coords list"

text \<open>The local variables of \<^verbatim>\<open>go\<close>; the two deques are lists, oldest element first.\<close>

record state =
  left_index :: nat
  right_index :: nat
  time_window :: "int list"
  space_window :: "coords list"

subsection \<open>The helpers \<^verbatim>\<open>find\<close> and \<^verbatim>\<open>dropn\<close>\<close>

fun find' :: "'a list \<Rightarrow> ('a \<Rightarrow> bool) \<Rightarrow> error + nat" where
  "find' [] pred = Inl ValueError"
| "find' (x # coll) pred =
     (if pred x then Inr 0
      else (case find' coll pred of Inl e \<Rightarrow> Inl e | Inr i \<Rightarrow> Inr (Suc i)))"

text \<open>\<^verbatim>\<open>deq.popleft()\<close> raises \<^verbatim>\<open>IndexError\<close> on an empty deque.\<close>

fun dropn :: "'a list \<Rightarrow> nat \<Rightarrow> error + 'a list" where
  "dropn deq 0 = Inr deq"
| "dropn [] (Suc n) = Inl IndexError"
| "dropn (x # deq) (Suc n) = dropn deq n"

subsection \<open>The library calls\<close>

definition getitem :: "row \<Rightarrow> string \<Rightarrow> error + field" where
  "getitem r k = (case r k of None \<Rightarrow> Inl (KeyError k) | Some v \<Rightarrow> Inr v)"

text \<open>\<^verbatim>\<open>datetime.strptime(current_ts, date_format)\<close>: a \<^verbatim>\<open>TypeError\<close> on \<open>None\<close>, a
  \<^verbatim>\<open>ValueError\<close> on a string that does not match the format.\<close>

definition parse_ts :: "(string \<Rightarrow> int option) \<Rightarrow> field \<Rightarrow> error + int" where
  "parse_ts strptime current_ts =
     (case current_ts of
        None \<Rightarrow> Inl TypeError
      | Some str \<Rightarrow> (case strptime str of None \<Rightarrow> Inl ValueError | Some t \<Rightarrow> Inr t))"

fun sequence :: "(error + 'a) list \<Rightarrow> error + 'a list" where
  "sequence [] = Inr []"
| "sequence (r # rs) =
     (case r of
        Inl e \<Rightarrow> Inl e
      | Inr v \<Rightarrow> (case sequence rs of Inl e \<Rightarrow> Inl e | Inr vs \<Rightarrow> Inr (v # vs)))"

text \<open>\<^verbatim>\<open>dist.pairwise(X, Y)\<close>: the matrix with one line per row of \<open>X\<close> and one column
  per row of \<open>Y\<close>; it raises when the metric raises on some pair.
  \<^verbatim>\<open>np.nditer\<close> reads the matrix line by line.\<close>

definition pairwise ::
  "(coords \<Rightarrow> coords \<Rightarrow> error + real) \<Rightarrow> coords list \<Rightarrow> coords list \<Rightarrow> error + real list list"
where
  "pairwise metric X Y = sequence (map (\<lambda>x. sequence (map (metric x) Y)) X)"

definition nditer :: "real list list \<Rightarrow> real list" where
  "nditer distances = concat distances"

subsection \<open>One turn of the loop of \<^verbatim>\<open>go\<close>\<close>

text \<open>Lines 72-73: the three fields of the row and the parsed timestamp.\<close>

definition read_row :: "(string \<Rightarrow> int option) \<Rightarrow> row \<Rightarrow> error + (int \<times> coords)" where
  "read_row strptime r =
     (case getitem r ''lat'' of
        Inl e \<Rightarrow> Inl e
      | Inr lat \<Rightarrow>
          (case getitem r ''lon'' of
             Inl e \<Rightarrow> Inl e
           | Inr long \<Rightarrow>
               (case getitem r ''date'' of
                  Inl e \<Rightarrow> Inl e
                | Inr current_ts \<Rightarrow>
                    (case parse_ts strptime current_ts of
                       Inl e \<Rightarrow> Inl e
                     | Inr current_ts \<Rightarrow> Inr (current_ts, [lat, long])))))"

text \<open>Lines 75-83, the \<^verbatim>\<open>try\<close> block and its handler. Only \<^verbatim>\<open>find\<close> raises
  \<^verbatim>\<open>ValueError\<close>, before anything is assigned, so the handler runs on the state the
  block started from; another exception leaves the block.\<close>

definition try_drop :: "(int \<Rightarrow> int \<Rightarrow> bool) \<Rightarrow> int \<Rightarrow> int \<Rightarrow> state \<Rightarrow> error + state" where
  "try_drop lt_time time_threshold current_ts s =
     (case find' (time_window s) (\<lambda>ts. lt_time (current_ts - ts) time_threshold) of
        Inl e \<Rightarrow> Inl e
      | Inr number_to_drop \<Rightarrow>
          (case dropn (time_window s) number_to_drop of
             Inl e \<Rightarrow> Inl e
           | Inr tw \<Rightarrow>
               (case dropn (space_window s) number_to_drop of
                  Inl e \<Rightarrow> Inl e
                | Inr sw \<Rightarrow>
                    Inr (s\<lparr>left_index := left_index s + number_to_drop,
                           time_window := tw, space_window := sw\<rparr>))))"

definition evict :: "(int \<Rightarrow> int \<Rightarrow> bool) \<Rightarrow> int \<Rightarrow> int \<Rightarrow> state \<Rightarrow> error + state" where
  "evict lt_time time_threshold current_ts s =
     (case try_drop lt_time time_threshold current_ts s of
        Inr s' \<Rightarrow> Inr s'
      | Inl e \<Rightarrow>
          if e = ValueError
          then Inr (s\<lparr>left_index := left_index s + length (time_window s),
                      time_window := [], space_window := []\<rparr>)
          else Inl e)"

text \<open>Lines 89-100: the two lines written for each distance under the threshold.\<close>

definition emit :: "(real \<Rightarrow> real \<Rightarrow> bool) \<Rightarrow> real \<Rightarrow> nat \<Rightarrow> nat \<Rightarrow> real list \<Rightarrow> effect list" where
  "emit lt_space space_threshold left right ds =
     concat (map (\<lambda>(i, d).
        if lt_space d space_threshold
        then [Writerow (left + i, right, d), Writerow (right, left + i, d)]
        else []) (enumerate 0 ds))"

text \<open>Lines 102-104.\<close>

definition push :: "int \<Rightarrow> coords \<Rightarrow> state \<Rightarrow> state" where
  "push current_ts current_coords s =
     s\<lparr>right_index := right_index s + 1,
       time_window := time_window s @ [current_ts],
       space_window := space_window s @ [current_coords]\<rparr>"

text \<open>The body of the loop: the effects of this turn, and the next state or the
  exception that ends the pass. (The second cell builds \<^verbatim>\<open>current_coords\<close> before it
  calls \<^verbatim>\<open>strptime\<close>, the first cell after the eviction; neither can raise.)\<close>

definition go_step ::
  "(string \<Rightarrow> int option) \<Rightarrow> (coords \<Rightarrow> coords \<Rightarrow> error + real) \<Rightarrow>
   (int \<Rightarrow> int \<Rightarrow> bool) \<Rightarrow> (real \<Rightarrow> real \<Rightarrow> bool) \<Rightarrow> int \<Rightarrow> real \<Rightarrow>
   row \<Rightarrow> state \<Rightarrow> effect list \<times> (error + state)"
where
  "go_step strptime metric lt_time lt_space time_threshold space_threshold r s =
     (case read_row strptime r of
        Inl e \<Rightarrow> ([], Inl e)
      | Inr (current_ts, current_coords) \<Rightarrow>
          (case evict lt_time time_threshold current_ts s of
             Inl e \<Rightarrow> ([], Inl e)
           | Inr s1 \<Rightarrow>
               if length (space_window s1) > 0
               then
                 (case pairwise metric (space_window s1) [current_coords] of
                    Inl e \<Rightarrow> ([Pairwise (space_window s1) [current_coords]], Inl e)
                  | Inr distances \<Rightarrow>
                      (Pairwise (space_window s1) [current_coords] #
                         emit lt_space space_threshold (left_index s1) (right_index s1)
                           (nditer distances),
                       Inr (push current_ts current_coords s1)))
               else ([], Inr (push current_ts current_coords s1))))"

subsection \<open>The pass\<close>

fun go_loop ::
  "(string \<Rightarrow> int option) \<Rightarrow> (coords \<Rightarrow> coords \<Rightarrow> error + real) \<Rightarrow>
   (int \<Rightarrow> int \<Rightarrow> bool) \<Rightarrow> (real \<Rightarrow> real \<Rightarrow> bool) \<Rightarrow> int \<Rightarrow> real \<Rightarrow>
   row list \<Rightarrow> state \<Rightarrow> effect list \<times> (error + state)"
where
  "go_loop strptime metric lt_time lt_space time_threshold space_threshold [] s = ([], Inr s)"
| "go_loop strptime metric lt_time lt_space time_threshold space_threshold (r # rr) s =
     (case go_step strptime metric lt_time lt_space time_threshold space_threshold r s of
        (es, Inl e) \<Rightarrow> (es, Inl e)
      | (es, Inr s') \<Rightarrow>
          (case go_loop strptime metric lt_time lt_space time_threshold space_threshold rr s' of
             (es', res) \<Rightarrow> (es @ es', res)))"

definition init :: state where
  "init = \<lparr>left_index = 0, right_index = 0, time_window = [], space_window = []\<rparr>"

text \<open>The two cells: \<open>Cell1\<close> is the cell of lines 58-110, which compares with
  \<^verbatim>\<open><\<close>; \<open>Cell2\<close> is the cell of lines 262-313, which compares with \<^verbatim>\<open><=\<close>.\<close>

datatype variant = Cell1 | Cell2

fun cmp :: "variant \<Rightarrow> 'a::ord \<Rightarrow> 'a \<Rightarrow> bool" where
  "cmp Cell1 a b = (a < b)"
| "cmp Cell2 a b = (a \<le> b)"

text \<open>\<^verbatim>\<open>go\<close> (lines 64-104 and 268-307).\<close>

definition go ::
  "variant \<Rightarrow> (string \<Rightarrow> int option) \<Rightarrow> (coords \<Rightarrow> coords \<Rightarrow> error + real) \<Rightarrow> int \<Rightarrow> real \<Rightarrow>
   row list \<Rightarrow> effect list \<times> (error + state)"
where
  "go v strptime metric time_threshold space_threshold rr =
     go_loop strptime metric (cmp v) (cmp v) time_threshold space_threshold rr init"

text \<open>Lines 106-110 and 309-313: the header, then the pass. The result is everything
  written and called, and the exception that ended the pass if there was one.\<close>

definition write_sparse_distance_matrix ::
  "variant \<Rightarrow> (string \<Rightarrow> int option) \<Rightarrow> (coords \<Rightarrow> coords \<Rightarrow> error + real) \<Rightarrow> int \<Rightarrow> real \<Rightarrow>
   row list \<Rightarrow> effect list \<times> error option"
where
  "write_sparse_distance_matrix v strptime metric time_threshold space_threshold rr =
     (case go v strptime metric time_threshold space_threshold rr of
        (es, res) \<Rightarrow>
          (Writeheader [''x'', ''y'', ''distance''] # es,
           case res of Inl e \<Rightarrow> Some e | Inr s \<Rightarrow> None))"

text \<open>The lines of the output file, in order.\<close>

fun written :: "effect list \<Rightarrow> entry list" where
  "written [] = []"
| "written (Writerow e # es) = e # written es"
| "written (_ # es) = written es"

section \<open>What the pass is expected to do\<close>

text \<open>The number of elements that \<^verbatim>\<open>find\<close> passes over at the head of the time window:
  those that fail the test of the \<^verbatim>\<open>lambda\<close>.\<close>

definition stale :: "(int \<Rightarrow> int \<Rightarrow> bool) \<Rightarrow> int \<Rightarrow> int \<Rightarrow> int list \<Rightarrow> nat" where
  "stale lt_time T cur tw = length (takeWhile (\<lambda>ts. \<not> lt_time (cur - ts) T) tw)"

text \<open>The state after the observations \<open>obs\<close> (timestamp and coordinates, in input
  order): the two windows hold the observations from \<open>left_index\<close> on.\<close>

definition aligned :: "(int \<times> coords) list \<Rightarrow> state \<Rightarrow> bool" where
  "aligned obs s \<longleftrightarrow>
     right_index s = length obs \<and> left_index s \<le> length obs \<and>
     time_window s = drop (left_index s) (map fst obs) \<and>
     space_window s = drop (left_index s) (map snd obs)"

text \<open>The lines written for a new observation with coordinates \<open>c\<close> when the window
  starts at the global index \<open>L\<close>.\<close>

definition step_rows ::
  "(coords \<Rightarrow> coords \<Rightarrow> error + real) \<Rightarrow> (real \<Rightarrow> real \<Rightarrow> bool) \<Rightarrow> real \<Rightarrow>
   (int \<times> coords) list \<Rightarrow> coords \<Rightarrow> nat \<Rightarrow> entry list" where
  "step_rows metric lt_space S obs c L =
     concat (map (\<lambda>i. case metric (snd (obs ! i)) c of
                          Inl e \<Rightarrow> []
                        | Inr d \<Rightarrow> if lt_space d S then [(i, length obs, d), (length obs, i, d)] else [])
               [L..<length obs])"

text \<open>The specification of the sparse matrix: the two lines of the pair \<open>(i, j)\<close>, present
  when the pair passes the time test and the space test; the lines of all pairs below \<open>j\<close>;
  the lines of all pairs from the observation \<open>n0\<close> on.\<close>

definition pair_rows ::
  "(int \<Rightarrow> int \<Rightarrow> bool) \<Rightarrow> (real \<Rightarrow> real \<Rightarrow> bool) \<Rightarrow> int \<Rightarrow> real \<Rightarrow>
   (coords \<Rightarrow> coords \<Rightarrow> error + real) \<Rightarrow> (int \<times> coords) list \<Rightarrow> nat \<Rightarrow> nat \<Rightarrow> entry list" where
  "pair_rows lt_time lt_space T S metric obs j i =
     (if lt_time (fst (obs ! j) - fst (obs ! i)) T
      then (case metric (snd (obs ! i)) (snd (obs ! j)) of
              Inl e \<Rightarrow> []
            | Inr d \<Rightarrow> if lt_space d S then [(i, j, d), (j, i, d)] else [])
      else [])"

definition near_rows ::
  "(int \<Rightarrow> int \<Rightarrow> bool) \<Rightarrow> (real \<Rightarrow> real \<Rightarrow> bool) \<Rightarrow> int \<Rightarrow> real \<Rightarrow>
   (coords \<Rightarrow> coords \<Rightarrow> error + real) \<Rightarrow> (int \<times> coords) list \<Rightarrow> nat \<Rightarrow> entry list" where
  "near_rows lt_time lt_space T S metric obs j =
     concat (map (pair_rows lt_time lt_space T S metric obs j) [0..<j])"

definition expected ::
  "(int \<Rightarrow> int \<Rightarrow> bool) \<Rightarrow> (real \<Rightarrow> real \<Rightarrow> bool) \<Rightarrow> int \<Rightarrow> real \<Rightarrow>
   (coords \<Rightarrow> coords \<Rightarrow> error + real) \<Rightarrow> (int \<times> coords) list \<Rightarrow> nat \<Rightarrow> entry list" where
  "expected lt_time lt_space T S metric obs n0 =
     concat (map (near_rows lt_time lt_space T S metric obs) [n0..<length obs])"

text \<open>Both comparisons are downward closed in the age of an element.\<close>

definition antitone :: "(int \<Rightarrow> int \<Rightarrow> bool) \<Rightarrow> bool" where
  "antitone lt_time \<longleftrightarrow> (\<forall>a b T. lt_time a T \<longrightarrow> b \<le> a \<longrightarrow> lt_time b T)"

text \<open>On sorted input the window is exactly the set of earlier observations that pass
  the time test against the last one.\<close>

definition exact :: "(int \<Rightarrow> int \<Rightarrow> bool) \<Rightarrow> int \<Rightarrow> (int \<times> coords) list \<Rightarrow> state \<Rightarrow> bool" where
  "exact lt_time T obs s \<longleftrightarrow>
     (obs \<noteq> [] \<longrightarrow> left_index s < length obs) \<and>
     (\<forall>i. Suc i < length obs \<longrightarrow>
        (left_index s \<le> i \<longleftrightarrow> lt_time (fst (last obs) - fst (obs ! i)) T))"

section \<open>Concrete inputs\<close>

text \<open>A table of four timestamps in the format of the notebook, in minutes from the
  first; it stands for \<^verbatim>\<open>strptime\<close> in the examples.\<close>

definition clock :: "string \<Rightarrow> int option" where
  "clock = map_of
     [(''01/01/2020 00:00'', 0), (''01/01/2020 00:30'', 30),
      (''01/01/2020 01:00'', 60), (''01/01/2020 02:00'', 120)]"

definition observation :: "string \<Rightarrow> string \<Rightarrow> string \<Rightarrow> row" where
  "observation la lo da = map_of [(''lat'', Some la), (''lon'', Some lo), (''date'', Some da)]"

text \<open>A metric that accepts every coordinate row: 0 between equal rows, 1 otherwise.\<close>

definition flat :: "coords \<Rightarrow> coords \<Rightarrow> error + real" where
  "flat x y = Inr (if x = y then 0 else 1)"

text \<open>A metric that raises on the latitude 999 and is \<open>flat\<close> elsewhere.\<close>

definition guarded :: "coords \<Rightarrow> coords \<Rightarrow> error + real" where
  "guarded x y =
     (if hd x = Some ''999'' \<or> hd y = Some ''999'' then Inl MetricDomainError else flat x y)"

text \<open>Scenario A of the specification: three observations at 0, 30 and 120 minutes.\<close>

definition scenario_A :: "row list" where
  "scenario_A =
     [observation ''0'' ''0'' ''01/01/2020 00:00'',
      observation ''0'' ''0.001'' ''01/01/2020 00:30'',
      observation ''0'' ''0.002'' ''01/01/2020 02:00'']"

text \<open>Two observations at the same place, 60 minutes apart; two observations at
  distance 1, 30 minutes apart.\<close>

definition hour_apart :: "row list" where
  "hour_apart =
     [observation ''0'' ''0'' ''01/01/2020 00:00'',
      observation ''0'' ''0'' ''01/01/2020 01:00'']"

definition unit_apart :: "row list" where
  "unit_apart =
     [observation ''0'' ''0'' ''01/01/2020 00:00'',
      observation ''0'' ''0.001'' ''01/01/2020 00:30'']"

text \<open>Inputs with the latitude 999: alone; followed two hours later by a valid
  observation; twice within half an hour.\<close>

definition lone_bad :: "row list" where
  "lone_bad = [observation ''999'' ''0'' ''01/01/2020 00:00'']"

definition bad_then_late :: "row list" where
  "bad_then_late =
     [observation ''999'' ''0'' ''01/01/2020 00:00'',
      observation ''0'' ''0'' ''01/01/2020 02:00'']"

definition bad_twice :: "row list" where
  "bad_twice =
     [observation ''999'' ''0'' ''01/01/2020 00:00'',
      observation ''999'' ''0'' ''01/01/2020 00:30'']"

text \<open>An input whose second timestamp is not in the format.\<close>

definition bad_date :: "row list" where
  "bad_date =
     [observation ''0'' ''0'' ''01/01/2020 00:00'',
      observation ''0'' ''0'' ''2020-01-01 00:30'',
      observation ''0'' ''0'' ''01/01/2020 01:00'']"

text \<open>The observations of scenario A as parsed, and what the pass does on it with the
  thresholds 60 minutes and 2.\<close>

definition obs_A :: "(int \<times> coords) list" where
  "obs_A =
     [(0, [Some ''0'', Some ''0'']), (30, [Some ''0'', Some ''0.001'']),
      (120, [Some ''0'', Some ''0.002''])]"

definition effects_A :: "effect list" where
  "effects_A =
     [Pairwise [[Some ''0'', Some ''0'']] [[Some ''0'', Some ''0.001'']],
      Writerow (0, 1, 1), Writerow (1, 0, 1)]"

definition final_A :: state where
  "final_A = \<lparr>left_index = 2, right_index = 3, time_window = [120],
               space_window = [[Some ''0'', Some ''0.002'']]\<rparr>"

definition middle_A :: state where
  "middle_A = \<lparr>left_index = 0, right_index = 2, time_window = [0, 30],
                space_window = [[Some ''0'', Some ''0''], [Some ''0'', Some ''0.001'']]\<rparr>"

text \<open>The observations of \<open>hour_apart\<close> as parsed, and the state after the single row
  of \<open>lone_bad\<close>.\<close>

definition obs_hour :: "(int \<times> coords) list" where
  "obs_hour = [(0, [Some ''0'', Some ''0'']), (60, [Some ''0'', Some ''0''])]"

definition after_bad :: state where
  "after_bad = \<lparr>left_index = 0, right_index = 1, time_window = [0],
                 space_window = [[Some ''999'', Some ''0'']]\<rparr>"

section \<open>The loop body and the pass\<close>

lemma find'_takeWhile:
  "find' xs p =
     (if \<exists>x\<in>set xs. p x then Inr (length (takeWhile (\<lambda>x. \<not> p x) xs)) else Inl ValueError)"
  by (induction xs) auto

lemma dropn_drop: "dropn xs n = (if n \<le> length xs then Inr (drop n xs) else Inl IndexError)"
  by (induction xs n rule: dropn.induct) auto

lemma length_takeWhile_all:
  "\<not> (\<exists>x\<in>set xs. p x) \<Longrightarrow> length (takeWhile (\<lambda>x. \<not> p x) xs) = length xs"
  by (induction xs) auto

lemma stale_le: "stale lt T cur tw \<le> length tw"
  by (simp add: stale_def length_takeWhile_le)

lemma evict_eq:
  assumes "length (space_window s) = length (time_window s)"
  shows "evict lt T cur s =
           Inr (s\<lparr>left_index := left_index s + stale lt T cur (time_window s),
                  time_window := drop (stale lt T cur (time_window s)) (time_window s),
                  space_window := drop (stale lt T cur (time_window s)) (space_window s)\<rparr>)"
proof (cases "\<exists>ts\<in>set (time_window s). lt (cur - ts) T")
  case True
  then show ?thesis
    using assms stale_le [of lt T cur "time_window s"]
    by (simp add: evict_def try_drop_def find'_takeWhile dropn_drop stale_def)
next
  case False
  then have "stale lt T cur (time_window s) = length (time_window s)"
    unfolding stale_def by (rule length_takeWhile_all)
  with False show ?thesis
    using assms by (simp add: evict_def try_drop_def find'_takeWhile)
qed

lemma sequence_map_Inr: "sequence (map Inr vs) = Inr vs"
  by (induction vs) auto

lemma sequence_Inr: "sequence rs = Inr vs \<longleftrightarrow> rs = map Inr vs"
proof
  show "sequence rs = Inr vs \<Longrightarrow> rs = map Inr vs"
    by (induction rs arbitrary: vs) (auto split: sum.splits)
qed (simp add: sequence_map_Inr)

lemma sequence_Inl: "sequence rs = Inl e \<Longrightarrow> Inl e \<in> set rs"
  by (induction rs) (auto split: sum.splits)

lemma pairwise_single:
  "pairwise M X [c] =
     (case sequence (map (\<lambda>x. M x c) X) of
        Inl e \<Rightarrow> Inl e
      | Inr ds \<Rightarrow> Inr (map (\<lambda>d. [d]) ds))"
  unfolding pairwise_def by (induction X) (auto split: sum.splits)

lemma nditer_single: "nditer (map (\<lambda>d. [d]) ds) = ds"
  by (induction ds) (auto simp: nditer_def)

lemma written_append: "written (es @ fs) = written es @ written fs"
  by (induction es rule: written.induct) auto

lemma written_concat: "written (concat ess) = concat (map written ess)"
  by (induction ess) (auto simp: written_append)

lemma aligned_init: "aligned [] init"
  by (simp add: aligned_def init_def)

lemma aligned_lengths: "aligned obs s \<Longrightarrow> length (space_window s) = length (time_window s)"
  by (simp add: aligned_def)

lemma read_row_fail: "read_row P r = Inl e \<Longrightarrow> go_step P M lt ls T S r s = ([], Inl e)"
  by (simp add: go_step_def)

lemma go_step_fail_written: "go_step P M lt ls T S r s = (es, Inl e) \<Longrightarrow> written es = []"
  by (auto simp: go_step_def split: sum.splits prod.splits if_splits)

lemma go_step_read: "go_step P M lt ls T S r s = (es, Inr s') \<Longrightarrow> \<exists>ob. read_row P r = Inr ob"
  by (auto simp: go_step_def split: sum.splits prod.splits if_splits)

lemma written_rows:
  "written (concat (map (\<lambda>(i, d). if ls d S then [Writerow (f i d), Writerow (g i d)] else []) xs)) =
     concat (map (\<lambda>(i, d). if ls d S then [f i d, g i d] else []) xs)"
  by (induction xs) auto

lemma concat_enumerate_window:
  assumes "map (\<lambda>x. M x c) (drop L cs) = map Inr ds"
  shows "concat (map (\<lambda>(i, d). h (L + i) d) (enumerate 0 ds)) =
           concat (map (\<lambda>i. case M (cs ! i) c of Inl e \<Rightarrow> [] | Inr d \<Rightarrow> h i d) [L..<length cs])"
  using assms
proof (induction ds arbitrary: L)
  case Nil
  then show ?case by simp
next
  case (Cons d ds)
  then have L: "L < length cs"
    by (cases "L < length cs") auto
  then have dr: "drop L cs = cs ! L # drop (Suc L) cs"
    by (simp add: Cons_nth_drop_Suc)
  with Cons.prems have hd: "M (cs ! L) c = Inr d"
    and tl: "map (\<lambda>x. M x c) (drop (Suc L) cs) = map Inr ds"
    by simp_all
  have "concat (map (\<lambda>(i, d). h (L + i) d) (enumerate 0 (d # ds))) =
          h L d @ concat (map (\<lambda>(i, d). h (Suc L + i) d) (enumerate 0 ds))"
    by (simp add: enumerate_Suc_eq [of 0] comp_def case_prod_unfold)
  also have "\<dots> = h L d @
      concat (map (\<lambda>i. case M (cs ! i) c of Inl e \<Rightarrow> [] | Inr d \<Rightarrow> h i d) [Suc L..<length cs])"
    using Cons.IH [OF tl] by simp
  also have "\<dots> =
      concat (map (\<lambda>i. case M (cs ! i) c of Inl e \<Rightarrow> [] | Inr d \<Rightarrow> h i d) [L..<length cs])"
    using L hd by (simp add: upt_conv_Cons)
  finally show ?case .
qed

lemma written_emit:
  assumes "map (\<lambda>x. M x c) (drop L (map snd obs)) = map Inr ds"
  shows "written (emit ls S L (length obs) ds) = step_rows M ls S obs c L"
proof -
  have "written (emit ls S L (length obs) ds) =
          concat (map (\<lambda>(i, d). (\<lambda>i d. if ls d S then [(i, length obs, d), (length obs, i, d)] else []) (L + i) d)
            (enumerate 0 ds))"
    unfolding emit_def by (rule written_rows)
  also have "\<dots> = concat (map (\<lambda>i. case M (map snd obs ! i) c of Inl e \<Rightarrow> []
       | Inr d \<Rightarrow> if ls d S then [(i, length obs, d), (length obs, i, d)] else []) [L..<length (map snd obs)])"
    by (rule concat_enumerate_window
        [of M c L "map snd obs" ds "\<lambda>i d. if ls d S then [(i, length obs, d), (length obs, i, d)] else []", OF assms])
  also have "\<dots> = step_rows M ls S obs c L"
    unfolding step_rows_def by (auto intro!: arg_cong [where f = concat])
  finally show ?thesis .
qed

lemma go_step_eq:
  assumes al: "aligned obs s" and rd: "read_row P r = Inr (t, c)"
    and L: "L = left_index s + stale lt T t (time_window s)"
    and s': "s' = \<lparr>left_index = L, right_index = Suc (length obs),
                    time_window = drop L (map fst obs) @ [t],
                    space_window = drop L (map snd obs) @ [c]\<rparr>"
  shows "go_step P M lt ls T S r s =
     (if L < length obs then
        (case sequence (map (\<lambda>x. M x c) (drop L (map snd obs))) of
           Inl e \<Rightarrow> ([Pairwise (drop L (map snd obs)) [c]], Inl e)
         | Inr ds \<Rightarrow> (Pairwise (drop L (map snd obs)) [c] # emit ls S L (length obs) ds, Inr s'))
      else ([], Inr s'))"
proof -
  let ?k = "stale lt T t (time_window s)"
  have ev: "evict lt T t s =
      Inr (s\<lparr>left_index := L, time_window := drop ?k (time_window s),
             space_window := drop ?k (space_window s)\<rparr>)"
    using evict_eq [OF aligned_lengths [OF al], of lt T t] L by simp
  have tw: "drop ?k (time_window s) = drop L (map fst obs)"
    and sw: "drop ?k (space_window s) = drop L (map snd obs)"
    using al L by (simp_all add: aligned_def add.commute)
  have ri: "right_index s = length obs"
    using al by (simp add: aligned_def)
  show ?thesis
    by (simp add: go_step_def rd ev tw sw ri push_def s' pairwise_single nditer_single
        split: sum.splits)
qed

lemma stale_aligned_le:
  assumes "aligned obs s"
  shows "left_index s + stale lt T t (time_window s) \<le> length obs"
proof -
  from assms have "length (time_window s) = length obs - left_index s" "left_index s \<le> length obs"
    by (simp_all add: aligned_def)
  with stale_le [of lt T t "time_window s"] show ?thesis by linarith
qed

lemma go_step_aligned:
  assumes al: "aligned obs s" and rd: "read_row P r = Inr (t, c)"
    and st: "go_step P M lt ls T S r s = (es, Inr s')"
  shows "aligned (obs @ [(t, c)]) s'"
    and "left_index s' = left_index s + stale lt T t (time_window s)"
    and "written es = step_rows M ls S obs c (left_index s')"
    and "\<forall>i. left_index s' \<le> i \<and> i < length obs \<longrightarrow> (\<exists>d. M (snd (obs ! i)) c = Inr d)"
proof -
  define L where "L = left_index s + stale lt T t (time_window s)"
  define s0 where "s0 = \<lparr>left_index = L, right_index = Suc (length obs),
                    time_window = drop L (map fst obs) @ [t],
                    space_window = drop L (map snd obs) @ [c]\<rparr>"
  note eq = go_step_eq [OF al rd L_def s0_def, of M ls S]
  have Lle: "L \<le> length obs"
    unfolding L_def by (rule stale_aligned_le [OF al])
  from st eq have s'_eq: "s' = s0"
    by (auto split: if_splits sum.splits)
  show "aligned (obs @ [(t, c)]) s'"
    unfolding s'_eq using Lle by (simp add: aligned_def s0_def)
  show "left_index s' = left_index s + stale lt T t (time_window s)"
    unfolding s'_eq by (simp add: s0_def L_def)
  have left: "left_index s' = L"
    unfolding s'_eq by (simp add: s0_def)
  show "written es = step_rows M ls S obs c (left_index s')"
  proof (cases "L < length obs")
    case True
    with st eq obtain ds where ds: "sequence (map (\<lambda>x. M x c) (drop L (map snd obs))) = Inr ds"
      and es: "es = Pairwise (drop L (map snd obs)) [c] # emit ls S L (length obs) ds"
      by (auto split: sum.splits)
    from ds have "map (\<lambda>x. M x c) (drop L (map snd obs)) = map Inr ds"
      by (simp add: sequence_Inr)
    then show ?thesis
      unfolding left es by (simp add: written_emit)
  next
    case False
    with st eq have "es = []" by simp
    with False show ?thesis
      unfolding left by (simp add: step_rows_def)
  qed
  show "\<forall>i. left_index s' \<le> i \<and> i < length obs \<longrightarrow> (\<exists>d. M (snd (obs ! i)) c = Inr d)"
  proof (intro allI impI)
    fix i assume i: "left_index s' \<le> i \<and> i < length obs"
    then have "L < length obs" using left by simp
    with st eq obtain ds where ds: "sequence (map (\<lambda>x. M x c) (drop L (map snd obs))) = Inr ds"
      by (auto split: sum.splits)
    then have m: "map (\<lambda>x. M x c) (drop L (map snd obs)) = map Inr ds"
      by (simp add: sequence_Inr)
    have len: "length ds = length obs - L"
      using arg_cong [OF m, of length] by simp
    from i left have iL: "L \<le> i" "i < length obs" by simp_all
    then have b: "i - L < length (drop L (map snd obs))" "i - L < length ds"
      using len by simp_all
    have "map (\<lambda>x. M x c) (drop L (map snd obs)) ! (i - L) = M (snd (obs ! i)) c"
      using b(1) iL by (simp only: nth_map) simp
    moreover have "map Inr ds ! (i - L) = Inr (ds ! (i - L))"
      using b(2) by simp
    ultimately have "M (snd (obs ! i)) c = Inr (ds ! (i - L))"
      unfolding m by (rule trans [OF sym])
    then show "\<exists>d. M (snd (obs ! i)) c = Inr d" ..
  qed
qed

lemma go_loop_append:
  "go_loop P M lt ls T S (xs @ ys) s =
     (case go_loop P M lt ls T S xs s of
        (es, Inl e) \<Rightarrow> (es, Inl e)
      | (es, Inr s') \<Rightarrow> (case go_loop P M lt ls T S ys s' of (es', res) \<Rightarrow> (es @ es', res)))"
  by (induction xs arbitrary: s) (auto split: prod.splits sum.splits)

lemma go_loop_reads:
  "go_loop P M lt ls T S rows s = (es, Inr s') \<Longrightarrow> \<exists>obs. map (read_row P) rows = map Inr obs"
proof (induction rows arbitrary: s es)
  case Nil
  then show ?case by simp
next
  case (Cons r rows)
  from Cons.prems obtain es1 s1 es2 where
    st: "go_step P M lt ls T S r s = (es1, Inr s1)"
    and lp: "go_loop P M lt ls T S rows s1 = (es2, Inr s')"
    by (auto split: prod.splits sum.splits)
  from go_step_read [OF st] obtain ob where "read_row P r = Inr ob" ..
  moreover from Cons.IH [OF lp] obtain obs where "map (read_row P) rows = map Inr obs" ..
  ultimately have "map (read_row P) (r # rows) = map Inr (ob # obs)" by simp
  then show ?case ..
qed

lemma go_loop_aligned:
  assumes "aligned obs s" "map (read_row P) rows = map Inr obs'"
    "go_loop P M lt ls T S rows s = (es, Inr s')"
  shows "aligned (obs @ obs') s' \<and> left_index s \<le> left_index s'"
  using assms
proof (induction rows arbitrary: obs s es obs')
  case Nil
  then show ?case by simp
next
  case (Cons r rows)
  from Cons.prems(2) obtain t c obs'' where obs': "obs' = (t, c) # obs''"
    and rd: "read_row P r = Inr (t, c)" and rest: "map (read_row P) rows = map Inr obs''"
    by (cases obs') auto
  from Cons.prems(3) obtain es1 s1 es2 where
    st: "go_step P M lt ls T S r s = (es1, Inr s1)"
    and lp: "go_loop P M lt ls T S rows s1 = (es2, Inr s')"
    by (auto split: prod.splits sum.splits)
  note a = go_step_aligned [OF Cons.prems(1) rd st]
  from Cons.IH [OF a(1) rest lp] a(2) show ?case
    unfolding obs' by simp
qed

lemma go_loop_error_prefix:
  "go_loop P M lt ls T S rows s = (es, Inl e) \<Longrightarrow>
     \<exists>k<length rows. \<exists>es' s'. go_loop P M lt ls T S (take k rows) s = (es', Inr s') \<and>
        written es' = written es"
proof (induction rows arbitrary: s es)
  case Nil
  then show ?case by simp
next
  case (Cons r rows)
  show ?case
  proof (cases "go_step P M lt ls T S r s")
    case (Pair es1 res1)
    show ?thesis
    proof (cases res1)
      case (Inl e1)
      with Pair Cons.prems have "es = es1" by simp
      moreover from Pair Inl have "written es1 = []"
        by (simp add: go_step_fail_written)
      ultimately have "go_loop P M lt ls T S (take 0 (r # rows)) s = ([], Inr s) \<and>
          written [] = written es" by simp
      then show ?thesis by blast
    next
      case (Inr s1)
      with Pair Cons.prems obtain es2 where
        lp: "go_loop P M lt ls T S rows s1 = (es2, Inl e)" and es: "es = es1 @ es2"
        by (auto split: prod.splits)
      from Cons.IH [OF lp] obtain k es' s' where k: "k < length rows"
        and pre: "go_loop P M lt ls T S (take k rows) s1 = (es', Inr s')"
        and w: "written es' = written es2" by blast
      from Pair Inr pre have
        "go_loop P M lt ls T S (take (Suc k) (r # rows)) s = (es1 @ es', Inr s')"
        by simp
      moreover have "written (es1 @ es') = written es"
        using w es by (simp add: written_append)
      ultimately show ?thesis using k by (intro exI [of _ "Suc k"]) auto 
    qed
  qed
qed

lemma go_loop_prefix:
  assumes "go_loop P M lt ls T S rows s = (es, res)"
  shows "\<exists>k\<le>length rows. \<exists>es' s'. go_loop P M lt ls T S (take k rows) s = (es', Inr s') \<and>
        written es' = written es"
proof (cases res)
  case (Inl e)
  with go_loop_error_prefix [of P M lt ls T S rows s es e] assms show ?thesis
    by (meson less_imp_le)
next
  case (Inr s')
  with assms have "go_loop P M lt ls T S (take (length rows) rows) s = (es, Inr s') \<and>
     written es = written es" by simp
  then show ?thesis by blast
qed

lemma antitone_cmp: "antitone (cmp v)"
  by (cases v) (auto simp: antitone_def)

lemma antitoneD: "antitone lt \<Longrightarrow> lt a T \<Longrightarrow> b \<le> a \<Longrightarrow> lt b T"
  unfolding antitone_def by blast

lemma stale_sorted:
  assumes "sorted tw" "antitone lt" "i < length tw"
  shows "i < stale lt T t tw \<longleftrightarrow> \<not> lt (t - tw ! i) T"
proof
  assume "i < stale lt T t tw"
  then have "tw ! i \<in> set (takeWhile (\<lambda>ts. \<not> lt (t - ts) T) tw)"
    unfolding stale_def by (metis nth_mem takeWhile_nth)
  then show "\<not> lt (t - tw ! i) T"
    by (auto dest: set_takeWhileD)
next
  assume n: "\<not> lt (t - tw ! i) T"
  show "i < stale lt T t tw"
  proof (rule ccontr)
    assume "\<not> i < stale lt T t tw"
    then have k: "stale lt T t tw \<le> i" by simp
    with assms(3) have "stale lt T t tw < length tw" by simp
    then have "lt (t - tw ! stale lt T t tw) T"
      unfolding stale_def using nth_length_takeWhile [of "\<lambda>ts. \<not> lt (t - ts) T" tw] by simp
    moreover have "tw ! stale lt T t tw \<le> tw ! i"
      using assms(1,3) k by (simp add: sorted_nth_mono)
    ultimately have "lt (t - tw ! i) T"
      using antitoneD [OF assms(2)] by (metis diff_left_mono)
    with n show False ..
  qed
qed

lemma exact_init: "exact lt T [] init"
  by (simp add: exact_def)

lemma concat_map_Nil: "(\<And>x. x \<in> set xs \<Longrightarrow> f x = []) \<Longrightarrow> concat (map f xs) = []"
  by (induction xs) auto

lemma window_exact:
  assumes al: "aligned obs s" and ex: "exact lt T obs s" and an: "antitone lt"
    and so: "sorted (map fst (obs @ [(t, c)]))" and i: "i < length obs"
  shows "left_index s + stale lt T t (time_window s) \<le> i \<longleftrightarrow> lt (t - fst (obs ! i)) T"
proof (cases "i < left_index s")
  case True
  from i have ne: "obs \<noteq> []" by auto
  with ex have "left_index s < length obs" by (simp add: exact_def)
  with True have "Suc i < length obs" by simp
  with ex have "left_index s \<le> i \<longleftrightarrow> lt (fst (last obs) - fst (obs ! i)) T"
    unfolding exact_def by blast
  with True have n: "\<not> lt (fst (last obs) - fst (obs ! i)) T"
    by simp
  have "fst (last obs) \<le> t"
    using so ne by (simp add: sorted_append last_map)
  then have "fst (last obs) - fst (obs ! i) \<le> t - fst (obs ! i)" by simp
  with n antitoneD [OF an] have "\<not> lt (t - fst (obs ! i)) T" by blast
  with True show ?thesis by simp
next
  case False
  let ?tw = "time_window s"
  from al have tw: "?tw = drop (left_index s) (map fst obs)"
    by (simp add: aligned_def)
  have st: "sorted ?tw"
    unfolding tw using so by (simp add: sorted_append)
  have len: "i - left_index s < length ?tw"
    unfolding tw using i False by simp
  have nth: "?tw ! (i - left_index s) = fst (obs ! i)"
    unfolding tw using i False by simp
  from stale_sorted [OF st an len, of T t]
  have "i - left_index s < stale lt T t ?tw \<longleftrightarrow> \<not> lt (t - fst (obs ! i)) T"
    unfolding nth .
  with False show ?thesis by auto
qed

lemma go_step_exact:
  assumes al: "aligned obs s" and ex: "exact lt T obs s" and an: "antitone lt"
    and so: "sorted (map fst (obs @ [(t, c)]))"
    and rd: "read_row P r = Inr (t, c)"
    and st: "go_step P M lt ls T S r s = (es, Inr s')"
  shows "exact lt T (obs @ [(t, c)]) s'"
    and "written es = near_rows lt ls T S M (obs @ [(t, c)]) (length obs)"
proof -
  note a = go_step_aligned [OF al rd st]
  let ?L = "left_index s'"
  have Lle: "?L \<le> length obs"
    unfolding a(2) by (rule stale_aligned_le [OF al])
  have K: "?L \<le> i \<longleftrightarrow> lt (t - fst (obs ! i)) T" if "i < length obs" for i
    unfolding a(2) by (rule window_exact [OF al ex an so that])
  show "exact lt T (obs @ [(t, c)]) s'"
    unfolding exact_def using Lle K by (simp add: nth_append)
  let ?F = "\<lambda>i. case M (snd (obs ! i)) c of Inl e \<Rightarrow> []
     | Inr d \<Rightarrow> if ls d S then [(i, length obs, d), (length obs, i, d)] else []"
  let ?G = "pair_rows lt ls T S M (obs @ [(t, c)]) (length obs)"
  have split: "[0..<length obs] = [0..<?L] @ [?L..<length obs]"
    using Lle by (metis le_add_diff_inverse upt_add_eq_append zero_le)
  have low: "concat (map ?G [0..<?L]) = []"
  proof (rule concat_map_Nil)
    fix x assume "x \<in> set [0..<?L]"
    then have x: "x < ?L" by simp
    with Lle have xn: "x < length obs" by simp
    from K [OF xn] x have "\<not> lt (t - fst (obs ! x)) T" by simp
    then show "?G x = []" using xn by (simp add: pair_rows_def nth_append)
  qed
  have high: "map ?G [?L..<length obs] = map ?F [?L..<length obs]"
  proof (rule map_cong [OF refl])
    fix x assume "x \<in> set [?L..<length obs]"
    then have x: "?L \<le> x" and xn: "x < length obs" by simp_all
    from K [OF xn] x have "lt (t - fst (obs ! x)) T" by simp
    then show "?G x = ?F x" using xn by (simp add: pair_rows_def nth_append)
  qed
  have "near_rows lt ls T S M (obs @ [(t, c)]) (length obs) = concat (map ?G [0..<length obs])"
    by (simp add: near_rows_def)
  also have "\<dots> = concat (map ?G [0..<?L]) @ concat (map ?G [?L..<length obs])"
    by (subst split) simp
  also have "\<dots> = concat (map ?F [?L..<length obs])"
    unfolding low high by simp
  also have "\<dots> = written es"
    unfolding a(3) step_rows_def ..
  finally show "written es = near_rows lt ls T S M (obs @ [(t, c)]) (length obs)" ..
qed

lemma near_rows_append:
  "j < length xs \<Longrightarrow> near_rows lt ls T S M (xs @ ys) j = near_rows lt ls T S M xs j"
  unfolding near_rows_def
  by (intro arg_cong [where f = concat] map_cong refl) (simp add: pair_rows_def nth_append)

lemma go_loop_expected:
  assumes "antitone lt" "aligned obs s" "exact lt T obs s"
    "map (read_row P) rows = map Inr obs'" "sorted (map fst (obs @ obs'))"
    "go_loop P M lt ls T S rows s = (es, Inr s')"
  shows "written es = expected lt ls T S M (obs @ obs') (length obs) \<and> exact lt T (obs @ obs') s'"
  using assms(2-)
proof (induction rows arbitrary: obs s es obs')
  case Nil
  then show ?case by (simp add: expected_def)
next
  case (Cons r rows)
  from Cons.prems(3) obtain t c obs'' where obs': "obs' = (t, c) # obs''"
    and rd: "read_row P r = Inr (t, c)" and rest: "map (read_row P) rows = map Inr obs''"
    by (cases obs') auto
  from Cons.prems(5) obtain es1 s1 es2 where
    st: "go_step P M lt ls T S r s = (es1, Inr s1)"
    and lp: "go_loop P M lt ls T S rows s1 = (es2, Inr s')"
    and es: "es = es1 @ es2"
    by (auto split: prod.splits sum.splits)
  have app: "obs @ obs' = (obs @ [(t, c)]) @ obs''"
    unfolding obs' by simp
  have so1: "sorted (map fst (obs @ [(t, c)]))"
    using Cons.prems(4) unfolding obs' by (simp add: sorted_append)
  note al1 = go_step_aligned(1) [OF Cons.prems(1) rd st]
  note ex1 = go_step_exact [OF Cons.prems(1,2) assms(1) so1 rd st]
  have so2: "sorted (map fst ((obs @ [(t, c)]) @ obs''))"
    using Cons.prems(4) unfolding app .
  note ih = Cons.IH [OF al1 ex1(1) rest so2 lp]
  have w1: "written es1 = near_rows lt ls T S M (obs @ obs') (length obs)"
    unfolding ex1(2) app
    by (rule near_rows_append [symmetric]) simp
  have "expected lt ls T S M (obs @ obs') (length obs) =
      near_rows lt ls T S M (obs @ obs') (length obs) @
      expected lt ls T S M (obs @ obs') (Suc (length obs))"
  proof -
    have "[length obs..<length (obs @ obs')] =
        length obs # [Suc (length obs)..<length (obs @ obs')]"
      by (rule upt_conv_Cons) (simp add: obs')
    then show ?thesis
      unfolding expected_def by (simp only: list.map concat.simps)
  qed
  with w1 ih show ?case
    unfolding es app by (simp add: written_append)
qed

lemma pair_rows_cases:
  "pair_rows lt ls T S M obs j i = [] \<or>
   (\<exists>d. pair_rows lt ls T S M obs j i = [(i, j, d), (j, i, d)] \<and>
      lt (fst (obs ! j) - fst (obs ! i)) T \<and> M (snd (obs ! i)) (snd (obs ! j)) = Inr d \<and> ls d S)"
  by (cases "M (snd (obs ! i)) (snd (obs ! j))") (simp_all add: pair_rows_def)

lemma pair_rows_near:
  assumes "lt (fst (obs ! j) - fst (obs ! i)) T" "M (snd (obs ! i)) (snd (obs ! j)) = Inr d" "ls d S"
  shows "pair_rows lt ls T S M obs j i = [(i, j, d), (j, i, d)]"
  using assms by (simp add: pair_rows_def)

lemma near_rows_mem:
  "(a, b, d) \<in> set (near_rows lt ls T S M obs j) \<longleftrightarrow>
     (\<exists>i<j. ((a = i \<and> b = j) \<or> (a = j \<and> b = i)) \<and>
        lt (fst (obs ! j) - fst (obs ! i)) T \<and> M (snd (obs ! i)) (snd (obs ! j)) = Inr d \<and> ls d S)"
  (is "?l \<longleftrightarrow> ?r")
proof
  assume ?l
  then obtain i where i: "i < j" "(a, b, d) \<in> set (pair_rows lt ls T S M obs j i)"
    unfolding near_rows_def by auto
  with pair_rows_cases [of lt ls T S M obs j i] show ?r
    by auto
next
  assume ?r
  then obtain i where i: "i < j" "(a = i \<and> b = j) \<or> (a = j \<and> b = i)"
    and "pair_rows lt ls T S M obs j i = [(i, j, d), (j, i, d)]"
    using pair_rows_near by blast
  then have "(a, b, d) \<in> set (pair_rows lt ls T S M obs j i)" by auto
  with i(1) show ?l
    unfolding near_rows_def by auto
qed

lemma expected_mem:
  "(a, b, d) \<in> set (expected lt ls T S M obs n0) \<longleftrightarrow>
     (\<exists>j i. n0 \<le> j \<and> j < length obs \<and> i < j \<and> ((a = i \<and> b = j) \<or> (a = j \<and> b = i)) \<and>
        lt (fst (obs ! j) - fst (obs ! i)) T \<and> M (snd (obs ! i)) (snd (obs ! j)) = Inr d \<and> ls d S)"
  unfolding expected_def set_concat set_map
  by (simp add: near_rows_mem Bex_def)

lemma concat_map_only:
  assumes "k \<in> set xs" "distinct xs" "\<And>x. x \<in> set xs \<Longrightarrow> x \<noteq> k \<Longrightarrow> f x = []"
  shows "concat (map f xs) = f k"
  using assms
proof (induction xs)
  case Nil
  then show ?case by simp
next
  case (Cons x xs)
  show ?case
  proof (cases "x = k")
    case True
    with Cons.prems have "concat (map f xs) = []"
      by (intro concat_map_Nil) auto
    with True show ?thesis by simp
  next
    case False
    with Cons.prems have "f x = []" "k \<in> set xs" "distinct xs" by auto
    with Cons show ?thesis by simp
  qed
qed

lemma filter_pair_rows:
  fixes i j :: nat
  assumes "i < j" "x < j"
  shows "filter (\<lambda>(a, b, _). (a = i \<and> b = j) \<or> (a = j \<and> b = i)) (pair_rows lt ls T S M obs j x) =
     (if x = i then pair_rows lt ls T S M obs j i else [])"
  using pair_rows_cases [of lt ls T S M obs j x] assms by auto

lemma filter_pair_near_rows:
  assumes "i < j"
  shows "filter (\<lambda>(a, b, _). (a = i \<and> b = j) \<or> (a = j \<and> b = i)) (near_rows lt ls T S M obs j) =
     pair_rows lt ls T S M obs j i"
proof -
  let ?P = "\<lambda>(a, b, _ :: real). (a = i \<and> b = j) \<or> (a = j \<and> b = i)"
  have "filter ?P (near_rows lt ls T S M obs j) =
      concat (map (\<lambda>k. filter ?P (pair_rows lt ls T S M obs j k)) [0..<j])"
    by (simp only: near_rows_def filter_concat map_map comp_def)
  also have "\<dots> = filter ?P (pair_rows lt ls T S M obs j i)"
  proof (rule concat_map_only)
    show "i \<in> set [0..<j]" using assms by simp
    show "distinct [0..<j]" by simp
    fix x assume "x \<in> set [0..<j]" "x \<noteq> i"
    then show "filter ?P (pair_rows lt ls T S M obs j x) = []"
      using assms by (simp add: filter_pair_rows)
  qed
  also have "\<dots> = pair_rows lt ls T S M obs j i"
    using assms by (simp add: filter_pair_rows)
  finally show ?thesis .
qed

lemma filter_pair_other_rows:
  assumes "i < j" "j' \<noteq> j"
  shows "filter (\<lambda>(a, b, _). (a = i \<and> b = j) \<or> (a = j \<and> b = i)) (near_rows lt ls T S M obs j') = []"
  unfolding filter_empty_conv using assms by (auto simp: near_rows_mem)

lemma filter_pair_expected:
  assumes "i < j" "j < length obs"
  shows "filter (\<lambda>(a, b, _). (a = i \<and> b = j) \<or> (a = j \<and> b = i)) (expected lt ls T S M obs 0) =
     pair_rows lt ls T S M obs j i"
proof -
  let ?P = "\<lambda>(a, b, _ :: real). (a = i \<and> b = j) \<or> (a = j \<and> b = i)"
  have "filter ?P (expected lt ls T S M obs 0) =
      concat (map (\<lambda>k. filter ?P (near_rows lt ls T S M obs k)) [0..<length obs])"
    by (simp only: expected_def filter_concat map_map comp_def)
  also have "\<dots> = filter ?P (near_rows lt ls T S M obs j)"
  proof (rule concat_map_only)
    show "j \<in> set [0..<length obs]" using assms by simp
    show "distinct [0..<length obs]" by simp
    fix x assume "x \<in> set [0..<length obs]" "x \<noteq> j"
    then show "filter ?P (near_rows lt ls T S M obs x) = []"
      using filter_pair_other_rows [OF assms(1)] by blast
  qed
  finally show ?thesis
    by (simp only: filter_pair_near_rows [OF assms(1)])
qed

section \<open>The pass on the concrete inputs\<close>

lemmas run_simps =
  go_def init_def go_step_def read_row_def getitem_def parse_ts_def evict_def try_drop_def
  pairwise_def nditer_def emit_def push_def enumerate_eq_zip observation_def clock_def
  flat_def guarded_def write_sparse_distance_matrix_def

lemma read_scenario_A: "map (read_row clock) scenario_A = map Inr obs_A"
  by (simp add: scenario_A_def obs_A_def observation_def clock_def read_row_def getitem_def
      parse_ts_def)

lemma go_scenario_A: "go v clock flat 60 2 scenario_A = (effects_A, Inr final_A)"
  by (cases v) (simp_all add: run_simps scenario_A_def effects_A_def final_A_def)

lemma go_scenario_A_2: "go v clock flat 60 2 (take 2 scenario_A) = (effects_A, Inr middle_A)"
  by (cases v) (simp_all add: run_simps scenario_A_def effects_A_def middle_A_def)

lemma go_bad_date_1:
  "go v clock flat 60 2 (take 1 bad_date) =
     ([], Inr \<lparr>left_index = 0, right_index = 1, time_window = [0],
              space_window = [[Some ''0'', Some ''0'']]\<rparr>)"
  by (cases v) (simp_all add: run_simps bad_date_def)

lemma read_hour_apart: "map (read_row clock) hour_apart = map Inr obs_hour"
  by (simp add: hour_apart_def obs_hour_def observation_def clock_def read_row_def getitem_def
      parse_ts_def)

lemma go_hour_apart_1:
  "go Cell1 clock flat 60 2 hour_apart =
     ([], Inr \<lparr>left_index = 1, right_index = 2, time_window = [60],
              space_window = [[Some ''0'', Some ''0'']]\<rparr>)"
  by (simp add: run_simps hour_apart_def)

lemma go_hour_apart_2:
  "go Cell2 clock flat 60 2 hour_apart =
     ([Pairwise [[Some ''0'', Some ''0'']] [[Some ''0'', Some ''0'']],
       Writerow (0, 1, 0), Writerow (1, 0, 0)],
      Inr \<lparr>left_index = 0, right_index = 2, time_window = [0, 60],
           space_window = [[Some ''0'', Some ''0''], [Some ''0'', Some ''0'']]\<rparr>)"
  by (simp add: run_simps hour_apart_def)

lemma go_unit_apart_1:
  "go Cell1 clock flat 60 1 unit_apart =
     ([Pairwise [[Some ''0'', Some ''0'']] [[Some ''0'', Some ''0.001'']]],
      Inr \<lparr>left_index = 0, right_index = 2, time_window = [0, 30],
           space_window = [[Some ''0'', Some ''0''], [Some ''0'', Some ''0.001'']]\<rparr>)"
  by (simp add: run_simps unit_apart_def)

lemma write_lone_bad:
  "write_sparse_distance_matrix v clock guarded 60 1 lone_bad =
     ([Writeheader [''x'', ''y'', ''distance'']], None)"
  by (cases v) (simp_all add: run_simps lone_bad_def)

lemma write_bad_then_late:
  "write_sparse_distance_matrix v clock guarded 60 1 bad_then_late =
     ([Writeheader [''x'', ''y'', ''distance'']], None)"
  by (cases v) (simp_all add: run_simps bad_then_late_def)

lemma write_bad_twice:
  "write_sparse_distance_matrix v clock flat 60 1 bad_twice =
     ([Writeheader [''x'', ''y'', ''distance''],
       Pairwise [[Some ''999'', Some ''0'']] [[Some ''999'', Some ''0'']],
       Writerow (0, 1, 0), Writerow (1, 0, 0)], None)"
  by (cases v) (simp_all add: run_simps bad_twice_def)

lemma write_scenario_A:
  "write_sparse_distance_matrix v clock flat 60 2 scenario_A =
     (Writeheader [''x'', ''y'', ''distance''] # effects_A, None)"
  by (simp add: write_sparse_distance_matrix_def go_scenario_A)

lemma write_hour_apart_1:
  "write_sparse_distance_matrix Cell1 clock flat 60 2 hour_apart =
     ([Writeheader [''x'', ''y'', ''distance'']], None)"
  by (simp add: write_sparse_distance_matrix_def go_hour_apart_1)

section \<open>Facts about \<open>go\<close>\<close>

lemma go_aligned:
  assumes "go v P M T S rows = (es, Inr s)"
  shows "\<exists>obs. map (read_row P) rows = map Inr obs \<and> aligned obs s"
proof -
  from assms have lp: "go_loop P M (cmp v) (cmp v) T S rows init = (es, Inr s)"
    by (simp add: go_def)
  from go_loop_reads [OF lp] obtain obs where obs: "map (read_row P) rows = map Inr obs" ..
  from go_loop_aligned [OF aligned_init obs lp] have "aligned obs s" by simp
  with obs show ?thesis by blast
qed

lemma map_Inr_length: "map f rows = map Inr obs \<Longrightarrow> length obs = length rows"
  by (metis length_map)

lemma go_append:
  "go v P M T S (xs @ ys) =
     (case go v P M T S xs of
        (es, Inl e) \<Rightarrow> (es, Inl e)
      | (es, Inr s') \<Rightarrow>
          (case go_loop P M (cmp v) (cmp v) T S ys s' of (es', res) \<Rightarrow> (es @ es', res)))"
  unfolding go_def by (rule go_loop_append)

lemma step_rows_mem:
  "(a, b, d) \<in> set (step_rows M ls S obs c L) \<longleftrightarrow>
     (\<exists>i. L \<le> i \<and> i < length obs \<and> ((a = i \<and> b = length obs) \<or> (a = length obs \<and> b = i)) \<and>
        M (snd (obs ! i)) c = Inr d \<and> ls d S)"
  (is "?l \<longleftrightarrow> ?r")
proof
  assume ?l
  then show ?r
    unfolding step_rows_def by (auto split: sum.splits if_splits)
next
  assume ?r
  then obtain i where i: "L \<le> i" "i < length obs"
    "(a = i \<and> b = length obs) \<or> (a = length obs \<and> b = i)" "M (snd (obs ! i)) c = Inr d" "ls d S"
    by blast
  then have "(a, b, d) \<in> set (case M (snd (obs ! i)) c of Inl e \<Rightarrow> []
      | Inr d \<Rightarrow> if ls d S then [(i, length obs, d), (length obs, i, d)] else [])"
    by auto
  moreover have "i \<in> set [L..<length obs]" using i by simp
  ultimately show ?l
    unfolding step_rows_def set_concat set_map by blast
qed

lemma go_loop_entries:
  assumes "aligned obs s" "map (read_row P) rows = map Inr obs'"
    "go_loop P M lt ls T S rows s = (es, Inr s')" "(a, b, d) \<in> set (written es)"
  shows "\<exists>i j. i < j \<and> length obs \<le> j \<and> j < length (obs @ obs') \<and>
     ((a = i \<and> b = j) \<or> (a = j \<and> b = i)) \<and>
     M (snd ((obs @ obs') ! i)) (snd ((obs @ obs') ! j)) = Inr d \<and> ls d S"
  using assms
proof (induction rows arbitrary: obs s es obs')
  case Nil
  then show ?case by simp
next
  case (Cons r rows)
  from Cons.prems(2) obtain t c obs'' where obs': "obs' = (t, c) # obs''"
    and rd: "read_row P r = Inr (t, c)" and rest: "map (read_row P) rows = map Inr obs''"
    by (cases obs') auto
  from Cons.prems(3) obtain es1 s1 es2 where
    st: "go_step P M lt ls T S r s = (es1, Inr s1)"
    and lp: "go_loop P M lt ls T S rows s1 = (es2, Inr s')"
    and es: "es = es1 @ es2"
    by (auto split: prod.splits sum.splits)
  have app: "obs @ obs' = (obs @ [(t, c)]) @ obs''"
    unfolding obs' by simp
  note a = go_step_aligned [OF Cons.prems(1) rd st]
  from Cons.prems(4) es consider "(a, b, d) \<in> set (written es1)" | "(a, b, d) \<in> set (written es2)"
    by (auto simp: written_append)
  then show ?case
  proof cases
    case 1
    then obtain i where i: "left_index s1 \<le> i" "i < length obs"
      "(a = i \<and> b = length obs) \<or> (a = length obs \<and> b = i)"
      "M (snd (obs ! i)) c = Inr d" "ls d S"
      unfolding a(3) step_rows_mem by blast
    have "i < length obs \<and> length obs \<le> length obs \<and> length obs < length (obs @ obs') \<and>
       ((a = i \<and> b = length obs) \<or> (a = length obs \<and> b = i)) \<and>
       M (snd ((obs @ obs') ! i)) (snd ((obs @ obs') ! length obs)) = Inr d \<and> ls d S"
      using i by (simp add: obs' nth_append)
    then show ?thesis by blast
  next
    case 2
    from Cons.IH [OF a(1) rest lp 2] obtain i j where
      "i < j" "length (obs @ [(t, c)]) \<le> j" "j < length ((obs @ [(t, c)]) @ obs'')"
      "(a = i \<and> b = j) \<or> (a = j \<and> b = i)"
      "M (snd (((obs @ [(t, c)]) @ obs'') ! i)) (snd (((obs @ [(t, c)]) @ obs'') ! j)) = Inr d" "ls d S"
      by blast
    then have "i < j \<and> length obs \<le> j \<and> j < length (obs @ obs') \<and>
       ((a = i \<and> b = j) \<or> (a = j \<and> b = i)) \<and>
       M (snd ((obs @ obs') ! i)) (snd ((obs @ obs') ! j)) = Inr d \<and> ls d S"
      unfolding app by simp
    then show ?thesis by blast
  qed
qed

lemma written_emit_eq:
  "written (emit ls S L R ds) =
     concat (map (\<lambda>(i, d). if ls d S then [(L + i, R, d), (R, L + i, d)] else []) (enumerate 0 ds))"
  unfolding emit_def by (rule written_rows)

lemma written_emit_sym:
  "(x, y, d) \<in> set (written (emit ls S L R ds)) \<Longrightarrow> (y, x, d) \<in> set (written (emit ls S L R ds))"
  unfolding written_emit_eq by (auto split: if_splits)

lemma go_step_sym:
  assumes "(x, y, d) \<in> set (written (fst (go_step P M lt ls T S r s)))"
  shows "(y, x, d) \<in> set (written (fst (go_step P M lt ls T S r s)))"
  using assms unfolding go_step_def
  by (auto split: sum.splits prod.splits if_splits dest: written_emit_sym)

lemma go_loop_sym:
  "(x, y, d) \<in> set (written (fst (go_loop P M lt ls T S rows s))) \<Longrightarrow>
   (y, x, d) \<in> set (written (fst (go_loop P M lt ls T S rows s)))"
proof (induction rows arbitrary: s)
  case Nil
  then show ?case by simp
next
  case (Cons r rows)
  show ?case
  proof (cases "go_step P M lt ls T S r s")
    case (Pair es1 res1)
    show ?thesis
    proof (cases res1)
      case (Inl e)
      with Pair Cons.prems go_step_sym [of x y d P M lt ls T S r s] show ?thesis by simp
    next
      case (Inr s1)
      with Pair Cons.prems Cons.IH [of s1] go_step_sym [of x y d P M lt ls T S r s]
      show ?thesis
        by (auto simp: written_append split: prod.splits)
    qed
  qed
qed

lemma emit_calls: "Pairwise X Y \<notin> set (emit ls S L R ds)"
  unfolding emit_def by (auto split: if_splits)

lemma go_step_calls:
  "Pairwise X Y \<in> set (fst (go_step P M lt ls T S r s)) \<Longrightarrow> X \<noteq> [] \<and> length Y = 1"
  unfolding go_step_def
  by (auto split: sum.splits prod.splits if_splits simp: emit_calls)

lemma go_loop_calls:
  "Pairwise X Y \<in> set (fst (go_loop P M lt ls T S rows s)) \<Longrightarrow> X \<noteq> [] \<and> length Y = 1"
proof (induction rows arbitrary: s)
  case Nil
  then show ?case by simp
next
  case (Cons r rows)
  show ?case
  proof (cases "go_step P M lt ls T S r s")
    case (Pair es1 res1)
    show ?thesis
    proof (cases res1)
      case (Inl e)
      with Pair Cons.prems go_step_calls [of X Y P M lt ls T S r s] show ?thesis by simp
    next
      case (Inr s1)
      with Pair Cons.prems Cons.IH [of s1] go_step_calls [of X Y P M lt ls T S r s]
      show ?thesis
        by (auto split: prod.splits)
    qed
  qed
qed

lemma written_header:
  "written (fst (write_sparse_distance_matrix v P M T S rows)) = written (fst (go v P M T S rows))"
  by (simp add: write_sparse_distance_matrix_def split: prod.splits)

lemma go_prefix:
  assumes "go v P M T S rows = (es, res)"
  shows "\<exists>k\<le>length rows. \<exists>es' s'. go v P M T S (take k rows) = (es', Inr s') \<and>
        written es' = written es"
  using assms unfolding go_def by (rule go_loop_prefix)

lemma go_entries:
  assumes "go v P M T S rows = (es, Inr s)" "map (read_row P) rows = map Inr obs"
    "(a, b, d) \<in> set (written es)"
  shows "\<exists>i j. i < j \<and> j < length obs \<and> ((a = i \<and> b = j) \<or> (a = j \<and> b = i)) \<and>
     M (snd (obs ! i)) (snd (obs ! j)) = Inr d \<and> cmp v d S"
  using go_loop_entries [OF aligned_init assms(2) assms(1) [unfolded go_def] assms(3)]
  by simp

lemma read_row_bad_date:
  assumes "r ''date'' = Some (Some str)" "P str = None"
  shows "\<exists>e. read_row P r = Inl e"
    and "r ''lat'' \<noteq> None \<and> r ''lon'' \<noteq> None \<Longrightarrow> read_row P r = Inl ValueError"
  using assms by (auto simp: read_row_def getitem_def parse_ts_def split: option.splits)

lemma cmp_le: "cmp v a b \<Longrightarrow> a \<le> (b :: 'a :: linorder)"
  by (cases v) simp_all

lemma cmp_refl: "cmp v (a :: 'a :: linorder) a \<longleftrightarrow> v = Cell2"
  by (cases v) simp_all

lemma go_expected:
  assumes "map (read_row P) rows = map Inr obs" "sorted (map fst obs)"
    "go v P M T S rows = (es, Inr s)"
  shows "written es = expected (cmp v) (cmp v) T S M obs 0" and "exact (cmp v) T obs s"
proof -
  have so: "sorted (map fst ([] @ obs))"
    using assms(2) by simp
  from go_loop_expected [OF antitone_cmp aligned_init exact_init assms(1) so
      assms(3) [unfolded go_def]]
  show "written es = expected (cmp v) (cmp v) T S M obs 0" and "exact (cmp v) T obs s"
    by simp_all
qed

lemma pair_written:
  assumes "map (read_row P) rows = map Inr obs" "sorted (map fst obs)"
    "go v P M T S rows = (es, Inr s)" "i < j" "j < length obs"
  shows "(i, j, d) \<in> set (written es) \<longleftrightarrow>
     cmp v (fst (obs ! j) - fst (obs ! i)) T \<and> M (snd (obs ! i)) (snd (obs ! j)) = Inr d \<and> cmp v d S"
proof -
  have "(i, j, d) \<in> set (expected (cmp v) (cmp v) T S M obs 0) \<longleftrightarrow>
     cmp v (fst (obs ! j) - fst (obs ! i)) T \<and> M (snd (obs ! i)) (snd (obs ! j)) = Inr d \<and> cmp v d S"
    unfolding expected_mem using assms(4,5) by auto
  then show ?thesis
    unfolding go_expected(1) [OF assms(1-3)] .
qed

lemma sequence_Inl_map:
  "sequence (map f xs) = Inl e \<Longrightarrow> \<exists>x\<in>set xs. f x = Inl e"
  using sequence_Inl [of "map f xs" e] by auto

lemma sequence_fails:
  assumes "x \<in> set xs" "f x = Inl e"
  shows "\<exists>e'. sequence (map f xs) = Inl e'"
proof (cases "sequence (map f xs)")
  case (Inl e')
  then show ?thesis by blast
next
  case (Inr vs)
  then have "map f xs = map Inr vs"
    by (simp add: sequence_Inr)
  then have "f x \<in> set (map Inr vs)"
    using assms(1) by (metis image_eqI set_map)
  with assms(2) show ?thesis by auto
qed

lemma go_step_error:
  assumes "read_row P r = Inr (t, c)" "evict lt T t s = Inr s1"
  shows "snd (go_step P M lt ls T S r s) = Inl e \<longleftrightarrow>
     sequence (map (\<lambda>x. M x c) (space_window s1)) = Inl e"
  by (cases "space_window s1")
    (simp_all add: go_step_def assms pairwise_single split: sum.splits)

text \<open>The pass completes when every row parses and the metric returns a distance on
  every pair of coordinate rows.\<close>

lemma sequence_total:
  assumes "\<And>x. \<exists>d. f x = Inr d"
  shows "\<exists>ds. sequence (map f xs) = Inr ds"
proof (induction xs)
  case Nil
  then show ?case by simp
next
  case (Cons x xs)
  from assms obtain d where "f x = Inr d" by blast
  moreover from Cons obtain ds where "sequence (map f xs) = Inr ds" ..
  ultimately show ?case by simp
qed

lemma go_step_completes:
  assumes al: "aligned obs s" and rd: "read_row P r = Inr (t, c)"
    and tot: "\<forall>x y. \<exists>d. M x y = Inr d"
  shows "\<exists>es s'. go_step P M lt ls T S r s = (es, Inr s')"
proof -
  define L where "L = left_index s + stale lt T t (time_window s)"
  define s0 where "s0 = \<lparr>left_index = L, right_index = Suc (length obs),
                    time_window = drop L (map fst obs) @ [t],
                    space_window = drop L (map snd obs) @ [c]\<rparr>"
  from tot have "\<And>x. \<exists>d. M x c = Inr d" by blast
  from sequence_total [of "\<lambda>x. M x c" "drop L (map snd obs)", OF this]
  obtain ds where "sequence (map (\<lambda>x. M x c) (drop L (map snd obs))) = Inr ds"
    by blast
  then show ?thesis
    unfolding go_step_eq [OF al rd L_def s0_def] by simp
qed

lemma go_loop_completes:
  assumes "aligned obs s" "map (read_row P) rows = map Inr obs'"
    and tot: "\<forall>x y. \<exists>d. M x y = Inr d"
  shows "\<exists>es s'. go_loop P M lt ls T S rows s = (es, Inr s')"
  using assms(1,2)
proof (induction rows arbitrary: obs s obs')
  case Nil
  then show ?case by simp
next
  case (Cons r rows)
  from Cons.prems(2) obtain t c obs'' where rd: "read_row P r = Inr (t, c)"
    and rest: "map (read_row P) rows = map Inr obs''"
    by (cases obs') auto
  from go_step_completes [OF Cons.prems(1) rd tot] obtain es1 s1 where
    st: "go_step P M lt ls T S r s = (es1, Inr s1)" by blast
  from Cons.IH [OF go_step_aligned(1) [OF Cons.prems(1) rd st] rest] obtain es2 s' where
    "go_loop P M lt ls T S rows s1 = (es2, Inr s')" by blast
  with st show ?case by simp
qed

lemma go_completes:
  assumes "map (read_row P) rows = map Inr obs" "\<forall>x y. \<exists>d. M x y = Inr d"
  shows "\<exists>es s. go v P M T S rows = (es, Inr s)"
  unfolding go_def using aligned_init assms by (rule go_loop_completes)

lemma write_completed:
  assumes "write_sparse_distance_matrix v P M T S rows = (es, None)"
  shows "\<exists>es' s. go v P M T S rows = (es', Inr s) \<and>
     es = Writeheader [''x'', ''y'', ''distance''] # es'"
  using assms
  by (auto simp: write_sparse_distance_matrix_def split: prod.splits sum.splits)

section \<open>The claims\<close>

text \<open>C1. Completeness on sorted input, with the tests of the cell. When
  \<^verbatim>\<open>write_sparse_distance_matrix\<close> completes, the output starts with the header, and the
  lines written for a pair \<open>i < j\<close> are exactly the two lines \<open>(i, j, d)\<close> and
  \<open>(j, i, d)\<close>, once each, when the pair passes the time test and the space test of the
  cell, and none otherwise. In the first cell (lines 58-110) both tests are strict, so a
  pair whose time difference is exactly the time threshold, or whose distance is exactly
  the space threshold, is not written; in the second cell (lines 262-313) both tests are
  closed and such a pair is written. (By \<open>go_completes\<close> the pass completes whenever
  every row parses and the metric returns a distance on every pair.)\<close>

theorem completeness:
  assumes "map (read_row P) rows = map Inr obs" "sorted (map fst obs)"
    "write_sparse_distance_matrix v P M T S rows = (es, None)"
    "i < j" "j < length obs"
    "M (snd (obs ! i)) (snd (obs ! j)) = Inr d"
  shows "hd es = Writeheader [''x'', ''y'', ''distance''] \<and>
     filter (\<lambda>(a, b, _). (a = i \<and> b = j) \<or> (a = j \<and> b = i)) (written es) =
       (if cmp v (fst (obs ! j) - fst (obs ! i)) T \<and> cmp v d S
        then [(i, j, d), (j, i, d)] else [])"
proof -
  from write_completed [OF assms(3)] obtain es' s where
    run: "go v P M T S rows = (es', Inr s)"
    and es: "es = Writeheader [''x'', ''y'', ''distance''] # es'"
    by blast
  have "filter (\<lambda>(a, b, _). (a = i \<and> b = j) \<or> (a = j \<and> b = i)) (written es') =
      pair_rows (cmp v) (cmp v) T S M obs j i"
    unfolding go_expected(1) [OF assms(1,2) run] by (rule filter_pair_expected [OF assms(4,5)])
  also have "\<dots> = (if cmp v (fst (obs ! j) - fst (obs ! i)) T \<and> cmp v d S
        then [(i, j, d), (j, i, d)] else [])"
    using assms(6) by (simp add: pair_rows_def)
  finally show ?thesis
    unfolding es by simp
qed

theorem completeness_witness:
  "map (read_row clock) scenario_A = map Inr obs_A \<and> sorted (map fst obs_A) \<and>
   write_sparse_distance_matrix Cell1 clock flat 60 2 scenario_A =
     (Writeheader [''x'', ''y'', ''distance''] # effects_A, None) \<and>
   (0 :: nat) < 1 \<and> 1 < length obs_A \<and>
   flat (snd (obs_A ! 0)) (snd (obs_A ! 1)) = Inr 1 \<and>
   cmp Cell1 (fst (obs_A ! 1) - fst (obs_A ! 0)) 60 \<and> cmp Cell1 (1 :: real) 2 \<and>
   filter (\<lambda>(a, b, _). (a = 0 \<and> b = 1) \<or> (a = 1 \<and> b = 0))
     (written (Writeheader [''x'', ''y'', ''distance''] # effects_A)) =
     [(0, 1, 1), (1, 0, 1)]"
proof -
  have a: "sorted (map fst obs_A)" "(0 :: nat) < 1" "1 < length obs_A"
    "flat (snd (obs_A ! 0)) (snd (obs_A ! 1)) = Inr 1"
    by (simp_all add: obs_A_def flat_def)
  have b: "cmp Cell1 (fst (obs_A ! 1) - fst (obs_A ! 0)) 60" "cmp Cell1 (1 :: real) 2"
    by (simp_all add: obs_A_def)
  have c: "write_sparse_distance_matrix Cell1 clock flat 60 2 scenario_A =
     (Writeheader [''x'', ''y'', ''distance''] # effects_A, None)"
    by (rule write_scenario_A)
  from completeness [OF read_scenario_A a(1) c a(2-4)] b
  have d: "filter (\<lambda>(a, b, _). (a = 0 \<and> b = 1) \<or> (a = 1 \<and> b = 0))
     (written (Writeheader [''x'', ''y'', ''distance''] # effects_A)) =
     [(0, 1, 1), (1, 0, 1)]"
    by simp
  show ?thesis
    by (intro conjI read_scenario_A a b c d)
qed

text \<open>The first cell misses a pair within the closed thresholds: two observations at the
  same place (distance 0, threshold 2), exactly 60 minutes apart with the time threshold
  60, and the output is the header alone.\<close>

theorem completeness_counterexample:
  "map (read_row clock) hour_apart = map Inr obs_hour \<and> sorted (map fst obs_hour) \<and>
   fst (obs_hour ! 1) - fst (obs_hour ! 0) \<le> 60 \<and>
   flat (snd (obs_hour ! 0)) (snd (obs_hour ! 1)) = Inr 0 \<and> (0 :: real) \<le> 2 \<and>
   write_sparse_distance_matrix Cell1 clock flat 60 2 hour_apart =
     ([Writeheader [''x'', ''y'', ''distance'']], None) \<and>
   filter (\<lambda>(a, b, _). (a = 0 \<and> b = 1) \<or> (a = 1 \<and> b = 0))
     (written (fst (write_sparse_distance_matrix Cell1 clock flat 60 2 hour_apart))) = []"
proof -
  have a: "sorted (map fst obs_hour)" "fst (obs_hour ! 1) - fst (obs_hour ! 0) \<le> 60"
    "flat (snd (obs_hour ! 0)) (snd (obs_hour ! 1)) = Inr 0" "(0 :: real) \<le> 2"
    by (simp_all add: obs_hour_def flat_def)
  have b: "filter (\<lambda>(a, b, _). (a = 0 \<and> b = 1) \<or> (a = 1 \<and> b = 0))
     (written (fst (write_sparse_distance_matrix Cell1 clock flat 60 2 hour_apart))) = []"
    unfolding write_hour_apart_1 by simp
  show ?thesis
    by (intro conjI read_hour_apart a write_hour_apart_1 b)
qed

text \<open>C2. The boundary policy is that of the cell. In the second cell (lines 262-313)
  both tests are closed: on sorted input, a pair whose time difference is exactly the
  time threshold, or whose distance is exactly the space threshold, is written when the
  other test passes, and an element of age exactly the time threshold stays in the
  window. In the first cell (lines 58-110) both tests are strict: such a pair is not
  written and such an element is evicted.\<close>

theorem boundary_policy:
  assumes "map (read_row P) rows = map Inr obs" "sorted (map fst obs)"
    "go v P M T S rows = (es, Inr s)" "i < j" "j < length obs"
    "M (snd (obs ! i)) (snd (obs ! j)) = Inr d"
  shows "(fst (obs ! j) - fst (obs ! i) = T \<and> cmp v d S \<longrightarrow>
            ((i, j, d) \<in> set (written es) \<longleftrightarrow> v = Cell2)) \<and>
         (cmp v (fst (obs ! j) - fst (obs ! i)) T \<and> d = S \<longrightarrow>
            ((i, j, d) \<in> set (written es) \<longleftrightarrow> v = Cell2)) \<and>
         (Suc j = length obs \<and> fst (obs ! j) - fst (obs ! i) = T \<longrightarrow>
            (left_index s \<le> i \<longleftrightarrow> v = Cell2))"
proof (intro conjI impI)
  note pw = pair_written [OF assms(1-5), where d = d]
  {
    assume "fst (obs ! j) - fst (obs ! i) = T \<and> cmp v d S"
    then show "(i, j, d) \<in> set (written es) \<longleftrightarrow> v = Cell2"
      unfolding pw using assms(6) by (simp add: cmp_refl)
  next
    assume "cmp v (fst (obs ! j) - fst (obs ! i)) T \<and> d = S"
    then show "(i, j, d) \<in> set (written es) \<longleftrightarrow> v = Cell2"
      unfolding pw using assms(6) by (simp add: cmp_refl)
  next
    assume a: "Suc j = length obs \<and> fst (obs ! j) - fst (obs ! i) = T"
    then have ne: "obs \<noteq> []" and j: "j = length obs - 1"
      by auto
    have "last obs = obs ! j"
      unfolding j by (rule last_conv_nth [OF ne])
    moreover have "Suc i < length obs"
      using a assms(4) by simp
    ultimately have "obs \<noteq> []" "last obs = obs ! j" "Suc i < length obs"
      using ne by simp_all
    with go_expected(2) [OF assms(1-3)] a show "left_index s \<le> i \<longleftrightarrow> v = Cell2"
      unfolding exact_def by (simp add: cmp_refl)
  }
qed

theorem boundary_policy_witness:
  "map (read_row clock) hour_apart = map Inr obs_hour \<and> sorted (map fst obs_hour) \<and>
   (0 :: nat) < 1 \<and> 1 < length obs_hour \<and> Suc 1 = length obs_hour \<and>
   flat (snd (obs_hour ! 0)) (snd (obs_hour ! 1)) = Inr 0 \<and>
   fst (obs_hour ! 1) - fst (obs_hour ! 0) = 60 \<and>
   cmp Cell2 (0 :: real) 2 \<and>
   (0, 1, 0) \<in> set (written (fst (go Cell2 clock flat 60 2 hour_apart))) \<and>
   left_index (projr (snd (go Cell2 clock flat 60 2 hour_apart))) \<le> 0"
proof -
  have a: "sorted (map fst obs_hour)" "(0 :: nat) < 1" "1 < length obs_hour"
    "flat (snd (obs_hour ! 0)) (snd (obs_hour ! 1)) = Inr 0"
    by (simp_all add: obs_hour_def flat_def)
  have b: "Suc 1 = length obs_hour" "fst (obs_hour ! 1) - fst (obs_hour ! 0) = 60"
    "cmp Cell2 (0 :: real) 2"
    by (simp_all add: obs_hour_def)
  note th = boundary_policy [OF read_hour_apart a(1) go_hour_apart_2 a(2-4)]
  from th b have c: "(0, 1, 0) \<in> set (written (fst (go Cell2 clock flat 60 2 hour_apart)))"
    unfolding go_hour_apart_2 by simp
  from th b have d: "left_index (projr (snd (go Cell2 clock flat 60 2 hour_apart))) \<le> 0"
    unfolding go_hour_apart_2 by simp
  show ?thesis
    by (intro conjI read_hour_apart a b c d)
qed

text \<open>The first cell at the boundary: of two observations at the same place exactly
  60 minutes apart, with the time threshold 60, the first is evicted before the second
  is compared, and nothing is written; of two observations at distance exactly 1, with
  the space threshold 1, the distance is computed and nothing is written.\<close>

theorem boundary_policy_counterexample:
  "map (read_row clock) hour_apart =
     map Inr [(0, [Some ''0'', Some ''0'']), (60, [Some ''0'', Some ''0''])] \<and>
   go Cell1 clock flat 60 2 hour_apart =
     ([], Inr \<lparr>left_index = 1, right_index = 2, time_window = [60],
              space_window = [[Some ''0'', Some ''0'']]\<rparr>) \<and>
   flat [Some ''0'', Some ''0''] [Some ''0'', Some ''0.001''] = Inr 1 \<and>
   go Cell1 clock flat 60 1 unit_apart =
     ([Pairwise [[Some ''0'', Some ''0'']] [[Some ''0'', Some ''0.001'']]],
      Inr \<lparr>left_index = 0, right_index = 2, time_window = [0, 30],
           space_window = [[Some ''0'', Some ''0''], [Some ''0'', Some ''0.001'']]\<rparr>)"
proof -
  have "flat [Some ''0'', Some ''0''] [Some ''0'', Some ''0.001''] = Inr 1"
    by (simp add: flat_def)
  with read_hour_apart go_hour_apart_1 go_unit_apart_1 show ?thesis
    by (simp add: obs_hour_def)
qed

text \<open>C3. No false positives on sorted input: every line written, also in a pass that
  ends with an exception of the metric, names two observations whose time difference
  passes the time test of the cell and does not exceed the time threshold, and carries
  their distance, which passes the space test of the cell.\<close>

theorem threshold_correctness:
  assumes "map (read_row P) rows = map Inr obs" "sorted (map fst obs)"
    "go v P M T S rows = (es, res)" "(a, b, d) \<in> set (written es)"
  shows "a < length obs \<and> b < length obs \<and>
     cmp v \<bar>fst (obs ! a) - fst (obs ! b)\<bar> T \<and> \<not> T < \<bar>fst (obs ! a) - fst (obs ! b)\<bar> \<and>
     M (snd (obs ! min a b)) (snd (obs ! max a b)) = Inr d \<and> cmp v d S \<and> d \<le> S"
proof -
  from go_prefix [OF assms(3)] obtain k es' s' where k: "k \<le> length rows"
    and run: "go v P M T S (take k rows) = (es', Inr s')" and w: "written es' = written es"
    by blast
  have len: "length obs = length rows"
    using assms(1) by (rule map_Inr_length)
  have rd: "map (read_row P) (take k rows) = map Inr (take k obs)"
    using assms(1) by (simp add: take_map [symmetric])
  have so: "sorted (map fst (take k obs))"
    using assms(2) unfolding take_map [symmetric] by (rule sorted_wrt_take)
  from assms(4) w have "(a, b, d) \<in> set (expected (cmp v) (cmp v) T S M (take k obs) 0)"
    unfolding go_expected(1) [OF rd so run, symmetric] by simp
  then obtain j i where j: "j < length (take k obs)" and i: "i < j"
    and ab: "(a = i \<and> b = j) \<or> (a = j \<and> b = i)"
    and t: "cmp v (fst (take k obs ! j) - fst (take k obs ! i)) T"
    and m: "M (snd (take k obs ! i)) (snd (take k obs ! j)) = Inr d" and sp: "cmp v d S"
    unfolding expected_mem by blast
  from j i k len have jk: "j < k" "i < k" "j < length obs" "i < length obs" by simp_all
  then have nth: "take k obs ! j = obs ! j" "take k obs ! i = obs ! i" by simp_all
  have "fst (obs ! i) \<le> fst (obs ! j)"
    using assms(2) i jk(3) by (simp add: sorted_iff_nth_mono)
  then have abs: "\<bar>fst (obs ! j) - fst (obs ! i)\<bar> = fst (obs ! j) - fst (obs ! i)"
    "\<bar>fst (obs ! i) - fst (obs ! j)\<bar> = fst (obs ! j) - fst (obs ! i)"
    by simp_all
  from t have t': "cmp v (fst (obs ! j) - fst (obs ! i)) T"
    unfolding nth .
  from m have m': "M (snd (obs ! i)) (snd (obs ! j)) = Inr d"
    unfolding nth .
  have mm: "min i j = i" "max i j = j" "min j i = i" "max j i = j"
    using i by simp_all
  from ab show ?thesis
  proof
    assume "a = i \<and> b = j"
    then show ?thesis
      using jk t' m' sp cmp_le [OF t'] cmp_le [OF sp] by (simp add: abs mm)
  next
    assume "a = j \<and> b = i"
    then show ?thesis
      using jk t' m' sp cmp_le [OF t'] cmp_le [OF sp] by (simp add: abs mm)
  qed
qed

theorem threshold_correctness_witness:
  "map (read_row clock) scenario_A = map Inr obs_A \<and> sorted (map fst obs_A) \<and>
   go Cell1 clock flat 60 2 scenario_A = (effects_A, Inr final_A) \<and>
   (1, 0, 1) \<in> set (written effects_A) \<and>
   (1 :: nat) < length obs_A \<and> (0 :: nat) < length obs_A \<and>
   cmp Cell1 \<bar>fst (obs_A ! 1) - fst (obs_A ! 0)\<bar> 60 \<and>
   \<not> 60 < \<bar>fst (obs_A ! 1) - fst (obs_A ! 0)\<bar> \<and>
   flat (snd (obs_A ! min 1 0)) (snd (obs_A ! max 1 0)) = Inr 1 \<and>
   cmp Cell1 (1 :: real) 2 \<and> (1 :: real) \<le> 2"
proof -
  have a: "sorted (map fst obs_A)"
    by (simp add: obs_A_def)
  have b: "go Cell1 clock flat 60 2 scenario_A = (effects_A, Inr final_A)"
    by (rule go_scenario_A)
  have c: "(1, 0, 1) \<in> set (written effects_A)"
    by (simp add: effects_A_def)
  from threshold_correctness [OF read_scenario_A a b c] read_scenario_A a b c show ?thesis
    by (intro conjI) simp_all
qed

text \<open>C4. Symmetry: the line \<open>(x, y, d)\<close> is in the output exactly when the line
  \<open>(y, x, d)\<close> is; this holds for every input, also when the pass ends with an
  exception.\<close>

theorem symmetry:
  "(x, y, d) \<in> set (written (fst (write_sparse_distance_matrix v P M T S rows))) \<longleftrightarrow>
   (y, x, d) \<in> set (written (fst (write_sparse_distance_matrix v P M T S rows)))"
  unfolding written_header go_def by (rule iffI; rule go_loop_sym)

text \<open>C5. Index consistency: both indices of every line written are below the number
  of input rows and differ from each other; when the pass completes, that number is the
  final \<open>right_index\<close>.\<close>

theorem index_consistency:
  assumes "go v P M T S rows = (es, res)" "(a, b, d) \<in> set (written es)"
  shows "a < length rows \<and> b < length rows \<and> a \<noteq> b \<and>
     (case res of Inl e \<Rightarrow> True | Inr s \<Rightarrow> right_index s = length rows)"
proof -
  from go_prefix [OF assms(1)] obtain k es' s' where k: "k \<le> length rows"
    and run: "go v P M T S (take k rows) = (es', Inr s')" and w: "written es' = written es"
    by blast
  from go_aligned [OF run] obtain obs where obs: "map (read_row P) (take k rows) = map Inr obs"
    by blast
  from map_Inr_length [OF obs] k have len: "length obs = k"
    by simp
  from assms(2) w have "(a, b, d) \<in> set (written es')" by simp
  from go_entries [OF run obs this] obtain i j where
    ij: "i < j" "j < length obs" "(a = i \<and> b = j) \<or> (a = j \<and> b = i)"
    by blast
  from ij(1,2) len k have "i < length rows" "j < length rows" "i \<noteq> j"
    by simp_all
  with ij(3) have A: "a < length rows \<and> b < length rows \<and> a \<noteq> b"
    by (elim disjE conjE) simp_all
  show ?thesis
  proof (cases res)
    case (Inl e)
    with A show ?thesis by simp
  next
    case (Inr s)
    from go_aligned [OF assms(1) [unfolded Inr]] obtain obs' where
      obs': "map (read_row P) rows = map Inr obs'" and al: "aligned obs' s" by blast
    from al map_Inr_length [OF obs'] have "right_index s = length rows"
      by (simp add: aligned_def)
    with A Inr show ?thesis by simp
  qed
qed

theorem index_consistency_witness:
  "go Cell1 clock flat 60 2 scenario_A = (effects_A, Inr final_A) \<and>
   (0, 1, 1) \<in> set (written effects_A) \<and>
   (0 :: nat) < length scenario_A \<and> (1 :: nat) < length scenario_A \<and> (0 :: nat) \<noteq> 1 \<and>
   right_index final_A = length scenario_A"
proof -
  have a: "go Cell1 clock flat 60 2 scenario_A = (effects_A, Inr final_A)"
    by (rule go_scenario_A)
  have b: "(0, 1, 1) \<in> set (written effects_A)"
    by (simp add: effects_A_def)
  from index_consistency [OF a b] a b show ?thesis
    by simp
qed

text \<open>C6. After every observation the window invariant holds: \<open>left_index\<close> plus the
  length of the window (of either deque) is \<open>right_index\<close>, which is the number of
  observations consumed so far; and \<open>left_index\<close> never decreases as the pass goes on.\<close>

theorem window_invariant:
  assumes "go v P M T S rows = (es, Inr s)"
    and "go v P M T S (rows @ rest) = (es', Inr s')"
  shows "left_index s + length (time_window s) = right_index s \<and>
         left_index s + length (space_window s) = right_index s \<and>
         right_index s = length rows \<and>
         left_index s \<le> left_index s'"
proof -
  from go_aligned [OF assms(1)] obtain obs where
    obs: "map (read_row P) rows = map Inr obs" and al: "aligned obs s" by blast
  from assms obtain es2 where
    lp: "go_loop P M (cmp v) (cmp v) T S rest s = (es2, Inr s')"
    by (auto simp: go_append split: prod.splits)
  from go_loop_reads [OF lp] obtain obs' where obs': "map (read_row P) rest = map Inr obs'" ..
  from go_loop_aligned [OF al obs' lp] have "left_index s \<le> left_index s'" ..
  moreover have "length obs = length rows"
    using obs by (rule map_Inr_length)
  ultimately show ?thesis
    using al by (simp add: aligned_def)
qed

theorem window_invariant_witness:
  "go Cell1 clock flat 60 2 (take 2 scenario_A) = (effects_A, Inr middle_A) \<and>
   go Cell1 clock flat 60 2 (take 2 scenario_A @ drop 2 scenario_A) = (effects_A, Inr final_A) \<and>
   left_index middle_A + length (time_window middle_A) = right_index middle_A \<and>
   left_index middle_A + length (space_window middle_A) = right_index middle_A \<and>
   right_index middle_A = length (take 2 scenario_A) \<and>
   left_index middle_A \<le> left_index final_A"
proof -
  have a: "go Cell1 clock flat 60 2 (take 2 scenario_A) = (effects_A, Inr middle_A)"
    by (rule go_scenario_A_2)
  have b: "go Cell1 clock flat 60 2 (take 2 scenario_A @ drop 2 scenario_A) =
      (effects_A, Inr final_A)"
    by (simp add: go_scenario_A)
  from window_invariant [OF a b] a b show ?thesis
    by simp
qed

text \<open>C7. The guard on the empty window: \<^verbatim>\<open>dist.pairwise\<close> is never called with an
  empty window; a turn of the loop whose window is empty after the eviction has no
  effect but the append; the empty input gives the header alone, and so does an input of
  one row.\<close>

theorem empty_window_guard:
  "(Pairwise X Y \<in> set (fst (write_sparse_distance_matrix v P M T S rows)) \<longrightarrow> X \<noteq> []) \<and>
   (read_row P r = Inr (t, c) \<and> evict (cmp v) T t s = Inr s1 \<and> space_window s1 = [] \<longrightarrow>
      go_step P M (cmp v) (cmp v) T S r s = ([], Inr (push t c s1))) \<and>
   write_sparse_distance_matrix v P M T S [] = ([Writeheader [''x'', ''y'', ''distance'']], None) \<and>
   fst (write_sparse_distance_matrix v P M T S [r]) = [Writeheader [''x'', ''y'', ''distance'']]"
proof (intro conjI impI)
  assume "Pairwise X Y \<in> set (fst (write_sparse_distance_matrix v P M T S rows))"
  then have "Pairwise X Y \<in> set (fst (go_loop P M (cmp v) (cmp v) T S rows init))"
    by (simp add: write_sparse_distance_matrix_def go_def split: prod.splits)
  then show "X \<noteq> []"
    by (simp add: go_loop_calls)
next
  assume "read_row P r = Inr (t, c) \<and> evict (cmp v) T t s = Inr s1 \<and> space_window s1 = []"
  then show "go_step P M (cmp v) (cmp v) T S r s = ([], Inr (push t c s1))"
    by (simp add: go_step_def)
next
  show "write_sparse_distance_matrix v P M T S [] = ([Writeheader [''x'', ''y'', ''distance'']], None)"
    by (simp add: write_sparse_distance_matrix_def go_def)
next
  have "fst (go_step P M (cmp v) (cmp v) T S r init) = []"
    by (simp add: go_step_def evict_def try_drop_def init_def split: sum.splits prod.splits)
  then show "fst (write_sparse_distance_matrix v P M T S [r]) = [Writeheader [''x'', ''y'', ''distance'']]"
    by (cases "go_step P M (cmp v) (cmp v) T S r init")
      (auto simp: write_sparse_distance_matrix_def go_def split: sum.splits)
qed

theorem empty_window_guard_witness:
  "Pairwise [[Some ''0'', Some ''0'']] [[Some ''0'', Some ''0.001'']]
     \<in> set (fst (write_sparse_distance_matrix Cell1 clock flat 60 2 scenario_A)) \<and>
   [[Some ''0'', Some ''0'']] \<noteq> ([] :: coords list) \<and>
   read_row clock (hd scenario_A) = Inr (0, [Some ''0'', Some ''0'']) \<and>
   evict (cmp Cell1) 60 0 init = Inr init \<and> space_window init = [] \<and>
   go_step clock flat (cmp Cell1) (cmp Cell1) 60 2 (hd scenario_A) init =
     ([], Inr (push 0 [Some ''0'', Some ''0''] init)) \<and>
   write_sparse_distance_matrix Cell1 clock flat 60 2 [] =
     ([Writeheader [''x'', ''y'', ''distance'']], None) \<and>
   fst (write_sparse_distance_matrix Cell1 clock flat 60 2 [hd scenario_A]) =
     [Writeheader [''x'', ''y'', ''distance'']]"
proof -
  have a: "Pairwise [[Some ''0'', Some ''0'']] [[Some ''0'', Some ''0.001'']]
     \<in> set (fst (write_sparse_distance_matrix Cell1 clock flat 60 2 scenario_A))"
    by (simp add: write_sparse_distance_matrix_def go_scenario_A effects_A_def)
  have b: "read_row clock (hd scenario_A) = Inr (0, [Some ''0'', Some ''0''])"
    by (simp add: run_simps scenario_A_def)
  have c: "evict (cmp Cell1) 60 0 init = Inr init" "space_window init = []"
    by (simp_all add: run_simps)
  from empty_window_guard [where X = "[[Some ''0'', Some ''0'']]"
      and Y = "[[Some ''0'', Some ''0.001'']]" and v = Cell1 and P = clock and M = flat
      and T = 60 and S = 2 and rows = scenario_A and r = "hd scenario_A" and t = 0
      and c = "[Some ''0'', Some ''0'']" and s = init and ?s1.0 = init] a b c
  show ?thesis
    by simp
qed

text \<open>C8. A timestamp that \<^verbatim>\<open>strptime\<close> rejects ends the pass with an exception:
  nothing is done for that row or any later one, and when the rows before it were
  processed and the row has its coordinate fields, the exception is the
  \<^verbatim>\<open>ValueError\<close> of \<^verbatim>\<open>strptime\<close>, which the handler of the eviction does not
  catch.\<close>

theorem parse_failure_fatal:
  assumes "k < length rows" "(rows ! k) ''date'' = Some (Some str)" "P str = None"
  shows "(\<exists>e. snd (go v P M T S rows) = Inl e) \<and>
     fst (go v P M T S rows) = fst (go v P M T S (take k rows)) \<and>
     ((rows ! k) ''lat'' \<noteq> None \<and> (rows ! k) ''lon'' \<noteq> None \<and>
        (\<exists>s. snd (go v P M T S (take k rows)) = Inr s) \<longrightarrow>
      snd (go v P M T S rows) = Inl ValueError)"
proof -
  have split: "rows = take k rows @ (rows ! k # drop (Suc k) rows)"
    using assms(1) by (simp add: id_take_nth_drop [symmetric])
  from read_row_bad_date(1) [of "rows ! k" str P, OF assms(2,3)] obtain e0 where e0: "read_row P (rows ! k) = Inl e0" ..
  have tail: "go_loop P M (cmp v) (cmp v) T S (rows ! k # drop (Suc k) rows) s = ([], Inl e0)" for s
    by (simp add: read_row_fail [OF e0])
  obtain es res where pre: "go v P M T S (take k rows) = (es, res)"
    by (cases "go v P M T S (take k rows)")
  have whole: "go v P M T S rows =
      (case res of Inl e \<Rightarrow> (es, Inl e) | Inr s \<Rightarrow> (es, Inl e0))"
    by (subst split) (simp add: go_append pre tail split: sum.splits del: go_loop.simps)
  have "e0 = ValueError" if "(rows ! k) ''lat'' \<noteq> None \<and> (rows ! k) ''lon'' \<noteq> None"
    using read_row_bad_date(2) [of "rows ! k" str P, OF assms(2,3) that] e0 by simp
  then show ?thesis
    unfolding whole pre by (cases res) auto
qed

theorem parse_failure_fatal_witness:
  "(1 :: nat) < length bad_date \<and>
   (bad_date ! 1) ''date'' = Some (Some ''2020-01-01 00:30'') \<and>
   clock ''2020-01-01 00:30'' = None \<and>
   (bad_date ! 1) ''lat'' \<noteq> None \<and> (bad_date ! 1) ''lon'' \<noteq> None \<and>
   snd (go Cell1 clock flat 60 2 bad_date) = Inl ValueError \<and>
   fst (go Cell1 clock flat 60 2 bad_date) = fst (go Cell1 clock flat 60 2 (take 1 bad_date))"
proof -
  have a: "(1 :: nat) < length bad_date"
    "(bad_date ! 1) ''date'' = Some (Some ''2020-01-01 00:30'')"
    "clock ''2020-01-01 00:30'' = None"
    by (simp_all add: bad_date_def observation_def clock_def)
  have b: "(bad_date ! 1) ''lat'' \<noteq> None" "(bad_date ! 1) ''lon'' \<noteq> None"
    by (simp_all add: bad_date_def observation_def)
  have c: "\<exists>s. snd (go Cell1 clock flat 60 2 (take 1 bad_date)) = Inr s"
    unfolding go_bad_date_1 by simp
  note th = parse_failure_fatal [where k = 1 and rows = bad_date and str = "''2020-01-01 00:30''"
      and P = clock and v = Cell1 and M = flat and T = 60 and S = 2, OF a]
  from th have d: "fst (go Cell1 clock flat 60 2 bad_date) =
      fst (go Cell1 clock flat 60 2 (take 1 bad_date))"
    by blast
  from th b c have e: "snd (go Cell1 clock flat 60 2 bad_date) = Inl ValueError"
    by blast
  show ?thesis
    by (intro conjI a b d e)
qed

text \<open>C9. \<^verbatim>\<open>go\<close> has no check of the coordinates of its own; a record is rejected through
  the metric alone. A turn of the loop ends the pass with an exception exactly when the
  metric raises on a pair of an element of the window that survived the eviction and the
  current record, and the exception is the metric's. So a record that meets an empty
  window is appended unchecked, and a metric that accepts every coordinate rejects
  nothing.\<close>

theorem metric_rejection:
  assumes "read_row P r = Inr (t, c)" "evict (cmp v) T t s = Inr s1"
  shows "((\<exists>e. snd (go_step P M (cmp v) (cmp v) T S r s) = Inl e) \<longleftrightarrow>
            (\<exists>x\<in>set (space_window s1). \<exists>e. M x c = Inl e)) \<and>
         (snd (go_step P M (cmp v) (cmp v) T S r s) = Inl e \<longrightarrow>
            (\<exists>x\<in>set (space_window s1). M x c = Inl e))"
proof (intro conjI impI iffI)
  assume "\<exists>e. snd (go_step P M (cmp v) (cmp v) T S r s) = Inl e"
  then obtain e' where "sequence (map (\<lambda>x. M x c) (space_window s1)) = Inl e'"
    unfolding go_step_error [OF assms] ..
  from sequence_Inl_map [OF this] show "\<exists>x\<in>set (space_window s1). \<exists>e. M x c = Inl e"
    by blast
next
  assume "\<exists>x\<in>set (space_window s1). \<exists>e. M x c = Inl e"
  then obtain x e' where "x \<in> set (space_window s1)" "M x c = Inl e'"
    by blast
  from sequence_fails [of x "space_window s1" "\<lambda>x. M x c", OF this]
  show "\<exists>e. snd (go_step P M (cmp v) (cmp v) T S r s) = Inl e"
    unfolding go_step_error [OF assms] .
next
  assume "snd (go_step P M (cmp v) (cmp v) T S r s) = Inl e"
  then have "sequence (map (\<lambda>x. M x c) (space_window s1)) = Inl e"
    unfolding go_step_error [OF assms] .
  then show "\<exists>x\<in>set (space_window s1). M x c = Inl e"
    by (rule sequence_Inl_map)
qed

theorem metric_rejection_witness:
  "read_row clock (observation ''0'' ''0'' ''01/01/2020 00:30'') = Inr (30, [Some ''0'', Some ''0'']) \<and>
   evict (cmp Cell2) 60 30 after_bad = Inr after_bad \<and>
   [Some ''999'', Some ''0''] \<in> set (space_window after_bad) \<and>
   guarded [Some ''999'', Some ''0''] [Some ''0'', Some ''0''] = Inl MetricDomainError \<and>
   (\<exists>e. snd (go_step clock guarded (cmp Cell2) (cmp Cell2) 60 1
            (observation ''0'' ''0'' ''01/01/2020 00:30'') after_bad) = Inl e)"
proof -
  have a: "read_row clock (observation ''0'' ''0'' ''01/01/2020 00:30'') =
      Inr (30, [Some ''0'', Some ''0''])"
    by (simp add: run_simps)
  have b: "evict (cmp Cell2) 60 30 after_bad = Inr after_bad"
    by (simp add: run_simps after_bad_def)
  have c: "[Some ''999'', Some ''0''] \<in> set (space_window after_bad)"
    by (simp add: after_bad_def)
  have d: "guarded [Some ''999'', Some ''0''] [Some ''0'', Some ''0''] = Inl MetricDomainError"
    by (simp add: guarded_def)
  from c d have "\<exists>x\<in>set (space_window after_bad). \<exists>e. guarded x [Some ''0'', Some ''0''] = Inl e"
    by blast
  with metric_rejection [OF a b, of guarded 1]
  have e: "\<exists>e. snd (go_step clock guarded (cmp Cell2) (cmp Cell2) 60 1
            (observation ''0'' ''0'' ''01/01/2020 00:30'') after_bad) = Inl e"
    by blast
  show ?thesis
    by (intro conjI a b c d e)
qed

text \<open>Records with the latitude 999, which the metric \<open>guarded\<close> rejects: alone, or
  followed by a record two hours later, they pass without an exception; and under the
  metric \<open>flat\<close>, which accepts them, two of them give a distance that is written.\<close>

theorem metric_rejection_counterexample:
  "guarded [Some ''999'', Some ''0''] [Some ''0'', Some ''0''] = Inl MetricDomainError \<and>
   write_sparse_distance_matrix Cell1 clock guarded 60 1 lone_bad =
     ([Writeheader [''x'', ''y'', ''distance'']], None) \<and>
   write_sparse_distance_matrix Cell2 clock guarded 60 1 bad_then_late =
     ([Writeheader [''x'', ''y'', ''distance'']], None) \<and>
   write_sparse_distance_matrix Cell2 clock flat 60 1 bad_twice =
     ([Writeheader [''x'', ''y'', ''distance''],
       Pairwise [[Some ''999'', Some ''0'']] [[Some ''999'', Some ''0'']],
       Writerow (0, 1, 0), Writerow (1, 0, 0)], None)"
proof -
  have "guarded [Some ''999'', Some ''0''] [Some ''0'', Some ''0''] = Inl MetricDomainError"
    by (simp add: guarded_def)
  then show ?thesis
    by (simp only: write_lone_bad write_bad_then_late write_bad_twice simp_thms)
qed

text \<open>C10. The two deques move in lockstep: after every observation, whether or not
  anything has been written, they have the same length and hold the timestamps and the
  coordinates of the same observations, those from \<open>left_index\<close> on; and the distance
  of every line written is the distance of the two observations that its indices
  name.\<close>

theorem lockstep:
  assumes "go v P M T S rows = (es, Inr s)" "map (read_row P) rows = map Inr obs"
  shows "length (time_window s) = length (space_window s) \<and>
     time_window s = map fst (drop (left_index s) obs) \<and>
     space_window s = map snd (drop (left_index s) obs) \<and>
     (\<forall>(a, b, d) \<in> set (written es).
        M (snd (obs ! min a b)) (snd (obs ! max a b)) = Inr d)"
proof -
  from go_loop_aligned [OF aligned_init assms(2) assms(1) [unfolded go_def]]
  have "aligned obs s" by simp
  then have "length (time_window s) = length (space_window s) \<and>
     time_window s = map fst (drop (left_index s) obs) \<and>
     space_window s = map snd (drop (left_index s) obs)"
    by (simp add: aligned_def drop_map)
  moreover have "M (snd (obs ! min a b)) (snd (obs ! max a b)) = Inr d"
    if "(a, b, d) \<in> set (written es)" for a b d
    using go_entries [OF assms that] by (auto simp: min_def max_def)
  ultimately show ?thesis by auto
qed

theorem lockstep_witness:
  "go Cell1 clock flat 60 2 hour_apart =
     ([], Inr \<lparr>left_index = 1, right_index = 2, time_window = [60],
              space_window = [[Some ''0'', Some ''0'']]\<rparr>) \<and>
   map (read_row clock) hour_apart = map Inr obs_hour \<and>
   [60] = map fst (drop 1 obs_hour) \<and>
   [[Some ''0'', Some ''0'']] = map snd (drop 1 obs_hour) \<and>
   go Cell2 clock flat 60 2 scenario_A = (effects_A, Inr final_A) \<and>
   map (read_row clock) scenario_A = map Inr obs_A \<and>
   (1, 0, 1) \<in> set (written effects_A) \<and>
   length (time_window final_A) = length (space_window final_A) \<and>
   time_window final_A = map fst (drop (left_index final_A) obs_A) \<and>
   space_window final_A = map snd (drop (left_index final_A) obs_A) \<and>
   flat (snd (obs_A ! min 1 0)) (snd (obs_A ! max 1 0)) = Inr 1"
proof -
  have a: "go Cell2 clock flat 60 2 scenario_A = (effects_A, Inr final_A)"
    by (rule go_scenario_A)
  have b: "(1, 0, 1) \<in> set (written effects_A)"
    by (simp add: effects_A_def)
  note th = lockstep [OF a read_scenario_A]
  from th b have c: "flat (snd (obs_A ! min 1 0)) (snd (obs_A ! max 1 0)) = Inr 1"
    by fast
  from lockstep [OF go_hour_apart_1 read_hour_apart]
  have d: "[60] = map fst (drop 1 obs_hour)" "[[Some ''0'', Some ''0'']] = map snd (drop 1 obs_hour)"
    by simp_all
  from th have e: "length (time_window final_A) = length (space_window final_A)"
    "time_window final_A = map fst (drop (left_index final_A) obs_A)"
    "space_window final_A = map snd (drop (left_index final_A) obs_A)"
    by simp_all
  show ?thesis
    by (intro conjI go_hour_apart_1 read_hour_apart d a read_scenario_A b e c)
qed

end
